theory Spec2Isabelle
  imports Main "HOL-Library.AList"
begin

section \<open>Data model of \<open>async_service/trio.py\<close>\<close>

text \<open>
  \<open>_Task\<close> objects are mutable and shared (a task is a key of the DAG dictionary and an
  element of its parent's child list), so they live in a store: the manager's \<open>tasks\<close>
  list, a task being identified by its position there. The position stands for the
  \<open>uuid4\<close> the constructor draws: it is fresh at every allocation. Runtime tasks
  (\<open>trio.hazmat.Task\<close>) are opaque handles.
\<close>

type_synonym tid = nat
type_synonym rt = nat

text \<open>The subclasses of \<open>Exception\<close> the module raises or captures.\<close>

datatype exn =
    LifecycleError string
  | DaemonTaskExit string
  | ServiceCancelled string
  | KeyError tid
  | UserError string

text \<open>
  What can propagate out of a coroutine: an \<open>Exception\<close>, or one of trio's
  \<open>BaseException\<close>s, which \<open>except Exception\<close> does not catch.
\<close>

datatype raised =
    Exception exn
  | Cancelled
  | MultiError "raised list"

record task =
  name :: string
  daemon :: bool
  done_set :: bool
  cancel_scope :: bool
  parent :: "tid option"
  trio_task :: "rt option"

text \<open>
  A function handed to \<open>run_task\<close>: a user coroutine function together with its
  arguments (opaque), or the bound method \<open>run\<close> of the manager made for a service.
\<close>

datatype async_fn = UserFn nat | ManagerRun nat

text \<open>The calls of \<open>start_soon\<close> on a nursery, in the order they were made.\<close>

datatype spawn =
    HandleCancelled
  | HandleRun
  | RunAndManageTask async_fn bool string tid

record manager =
  service :: nat
  started :: bool
  cancelled :: bool
  stopping :: bool
  finished :: bool
  run_lock :: bool
  errors :: "exn list"
  service_task_dag :: "(tid \<times> tid list) list"
  tasks :: "task list"
  system_nursery :: "spawn list"
  task_nursery :: "spawn list"
  system_nursery_cancelled :: bool
  task_nursery_cancelled :: bool

text \<open>
  \<open>TrioManager.__init__\<close>: the four events unset, the lock free, the DAG empty.
  Modelled from the spec: \<open>BaseManager.__init__\<close> (in \<open>base.py\<close>, whose source is not
  at hand) creates the error buffer; the spec has the buffer hold the failures captured as
  tasks fail, so it starts empty.
\<close>

definition init_manager :: "nat \<Rightarrow> manager" where
  "init_manager svc =
     \<lparr> service = svc, started = False, cancelled = False, stopping = False,
       finished = False, run_lock = False, errors = [], service_task_dag = [],
       tasks = [], system_nursery = [], task_nursery = [],
       system_nursery_cancelled = False, task_nursery_cancelled = False \<rparr>"

subsection \<open>Event API mirror\<close>

definition is_started :: "manager \<Rightarrow> bool" where
  "is_started m = started m"

definition is_cancelled :: "manager \<Rightarrow> bool" where
  "is_cancelled m = cancelled m"

definition is_finished :: "manager \<Rightarrow> bool" where
  "is_finished m = finished m"

definition is_stopping :: "manager \<Rightarrow> bool" where
  "is_stopping m = (stopping m \<and> \<not> is_finished m)"

text \<open>
  Modelled from the spec: \<open>BaseManager.is_running\<close> is defined in \<open>base.py\<close>, whose
  source is not at hand. The spec gives \<open>running := started \<and> \<not> stopping \<and> \<not> finished\<close>.
\<close>

definition is_running :: "manager \<Rightarrow> bool" where
  "is_running m = (started m \<and> \<not> stopping m \<and> \<not> finished m)"

text \<open>
  Modelled from the spec: \<open>BaseManager.did_error\<close> is defined in \<open>base.py\<close>, whose
  source is not at hand; the spec has \<open>run\<close> fail when the error buffer is non-empty.
\<close>

definition did_error :: "manager \<Rightarrow> bool" where
  "did_error m = (errors m \<noteq> [])"

subsection \<open>Control API\<close>

definition cancel :: "manager \<Rightarrow> exn + manager" where
  "cancel m =
     (if \<not> is_started m then
        Inl (LifecycleError ''Cannot cancel as service which was never started.'')
      else if \<not> is_running m then Inr m
      else Inr (m\<lparr>cancelled := True\<rparr>))"

text \<open>\<open>n\<close> successive calls of \<open>cancel\<close>; the first one that raises ends the sequence.\<close>

fun cancel_times :: "nat \<Rightarrow> manager \<Rightarrow> exn + manager" where
  "cancel_times 0 m = Inr m"
| "cancel_times (Suc n) m = (case cancel m of Inl e \<Rightarrow> Inl e | Inr m' \<Rightarrow> cancel_times n m')"

subsection \<open>Stats\<close>

record stats =
  total_count :: int
  finished_count :: int

definition is_done :: "manager \<Rightarrow> tid \<Rightarrow> bool" where
  "is_done m t = (t < length (tasks m) \<and> done_set (tasks m ! t))"

definition get_stats :: "manager \<Rightarrow> stats" where
  "get_stats m =
     (let total = max 0 (int (length (service_task_dag m)) - 1);
          fin = min total
                  (int (length (filter (\<lambda>t. is_done m t) (map fst (service_task_dag m)))))
      in \<lparr> total_count = total, finished_count = fin \<rparr>)"

subsection \<open>Parent inference\<close>

definition has_trio_task :: "task list \<Rightarrow> tid \<Rightarrow> bool" where
  "has_trio_task ts t = (t < length ts \<and> trio_task (ts ! t) \<noteq> None)"

text \<open>The \<open>for\<close> loop of \<open>_get_parent_task\<close> over the keys of the DAG, in dictionary order.\<close>

fun find_parent :: "task list \<Rightarrow> rt \<Rightarrow> tid list \<Rightarrow> tid option" where
  "find_parent ts r [] = None"
| "find_parent ts r (t # rest) =
     (if \<not> has_trio_task ts t then find_parent ts r rest
      else if trio_task (ts ! t) = Some r then Some t
      else find_parent ts r rest)"

definition get_parent_task :: "manager \<Rightarrow> rt \<Rightarrow> tid option" where
  "get_parent_task m r = find_parent (tasks m) r (map fst (service_task_dag m))"

subsection \<open>Scheduling tasks\<close>

text \<open>
  \<open>run_task\<close>, called from the runtime task \<open>cur\<close> (\<open>trio.hazmat.current_task()\<close>).
  \<open>task_name\<close> is the value of \<open>get_task_name(async_fn, name)\<close>, a helper of
  \<open>_utils.py\<close>. The subscript \<open>self._service_task_dag[task.parent]\<close> raises
  \<open>KeyError\<close> on a missing key.
\<close>

definition run_task :: "manager \<Rightarrow> rt \<Rightarrow> async_fn \<Rightarrow> bool \<Rightarrow> string \<Rightarrow> exn + manager" where
  "run_task m cur async_fn dmn task_name =
     (if \<not> is_running m then
        Inl (LifecycleError ''Tasks may not be scheduled if the service is not running'')
      else if is_running m \<and> is_cancelled m then Inr m
      else
        let t = length (tasks m);
            new = \<lparr> name = task_name, daemon = dmn, done_set = False,
                    cancel_scope = False, parent = get_parent_task m cur,
                    trio_task = None \<rparr>;
            m1 = m\<lparr>tasks := tasks m @ [new]\<rparr>;
            entry = RunAndManageTask async_fn dmn task_name t
        in case parent new of
             None \<Rightarrow>
               Inr (m1\<lparr>service_task_dag := AList.update t [] (service_task_dag m1),
                        task_nursery := task_nursery m1 @ [entry]\<rparr>)
           | Some p \<Rightarrow>
               (case map_of (service_task_dag m1) p of
                  None \<Rightarrow> Inl (KeyError p)
                | Some cs \<Rightarrow>
                    Inr (m1\<lparr>service_task_dag :=
                               AList.update t []
                                 (AList.update p (cs @ [t]) (service_task_dag m1)),
                             task_nursery := task_nursery m1 @ [entry]\<rparr>)))"

text \<open>
  \<open>run_child_service\<close>: the child manager is built first, then its \<open>run\<close> is handed to
  \<open>run_task\<close>; the child is returned when \<open>run_task\<close> returns.
\<close>

definition run_child_service ::
  "manager \<Rightarrow> rt \<Rightarrow> nat \<Rightarrow> bool \<Rightarrow> string \<Rightarrow> exn + (manager \<times> manager)" where
  "run_child_service m cur svc dmn task_name =
     (let child_manager = init_manager svc
      in case run_task m cur (ManagerRun svc) dmn task_name of
           Inl e \<Rightarrow> Inl e
         | Inr m' \<Rightarrow> Inr (m', child_manager))"

subsection \<open>The managed task wrapper\<close>

text \<open>
  A coroutine is modelled by its segments between suspension points. How the awaited
  user code ends is an input: it returns, it raises an \<open>Exception\<close>, it is cancelled by
  the task's own cancel scope (the scope swallows the \<open>trio.Cancelled\<close> it caused when
  the \<open>with\<close> block exits), or a \<open>BaseException\<close> passes through (a cancellation that
  belongs to an enclosing scope).
\<close>

datatype outcome = Returned | Raised exn | Absorbed | Escaped raised

definition set_done :: "manager \<Rightarrow> tid \<Rightarrow> manager" where
  "set_done m t = m\<lparr>tasks := (tasks m)[t := (tasks m ! t)\<lparr>done_set := True\<rparr>]\<rparr>"

text \<open>The setter of \<open>_Task.trio_task\<close>.\<close>

definition set_trio_task :: "manager \<Rightarrow> tid \<Rightarrow> rt \<Rightarrow> exn + manager" where
  "set_trio_task m t r =
     (if has_trio_task (tasks m) t then Inl (LifecycleError ''Task already set'')
      else Inr (m\<lparr>tasks := (tasks m)[t := (tasks m ! t)\<lparr>trio_task := Some r\<rparr>]\<rparr>))"

text \<open>
  \<open>_run_and_manage_task\<close> up to \<open>await async_fn(*args)\<close>: the assignment to
  \<open>task.trio_task\<close> stands before the \<open>try\<close>, so an error of the setter leaves the
  wrapper without setting \<open>done\<close>.
\<close>

definition run_and_manage_task_enter :: "manager \<Rightarrow> tid \<Rightarrow> rt \<Rightarrow> exn + manager" where
  "run_and_manage_task_enter m t cur = set_trio_task m t cur"

text \<open>
  \<open>_run_and_manage_task\<close> from the end of \<open>await async_fn(*args)\<close>: the state after,
  and what the wrapper raises into the task nursery.
\<close>

definition run_and_manage_task_exit ::
  "manager \<Rightarrow> bool \<Rightarrow> string \<Rightarrow> tid \<Rightarrow> outcome \<Rightarrow> manager \<times> raised option" where
  "run_and_manage_task_exit m dmn nm t out =
     (let (m1, r) =
        (case out of
           Raised e \<Rightarrow>
             (let m' = m\<lparr>errors := errors m @ [e]\<rparr>
              in case cancel m' of
                   Inl le \<Rightarrow> (m', Some (Exception le))
                 | Inr m'' \<Rightarrow> (m'', None))
         | Returned \<Rightarrow>
             (if dmn then
                (case cancel m of
                   Inl le \<Rightarrow> (m, Some (Exception le))
                 | Inr m'' \<Rightarrow>
                     (m'', Some (Exception
                        (DaemonTaskExit (''Daemon task '' @ nm @ '' exited'')))))
              else (m, None))
         | Absorbed \<Rightarrow> (m, None)
         | Escaped b \<Rightarrow> (m, Some b))
      in (set_done m1 t, r))"

subsection \<open>System tasks\<close>

text \<open>\<open>_handle_run\<close> up to \<open>await self._service.run()\<close>; \<open>cur\<close> is the current runtime task.\<close>

definition handle_run_enter :: "manager \<Rightarrow> rt \<Rightarrow> manager \<times> tid" where
  "handle_run_enter m cur =
     (let t = length (tasks m);
          new = \<lparr> name = ''run'', daemon = False, done_set = False,
                  cancel_scope = False, parent = None, trio_task = Some cur \<rparr>
      in (m\<lparr>tasks := tasks m @ [new],
            service_task_dag := AList.update t [] (service_task_dag m)\<rparr>, t))"

text \<open>\<open>_handle_run\<close> from the end of \<open>await self._service.run()\<close>.\<close>

definition handle_run_exit :: "manager \<Rightarrow> tid \<Rightarrow> outcome \<Rightarrow> manager \<times> raised option" where
  "handle_run_exit m t out =
     (let (m1, r) =
        (case out of
           Raised e \<Rightarrow>
             (let m' = m\<lparr>errors := errors m @ [e]\<rparr>
              in case cancel m' of
                   Inl le \<Rightarrow> (m', Some (Exception le))
                 | Inr m'' \<Rightarrow> (m'', None))
         | Returned \<Rightarrow> (m, None)
         | Absorbed \<Rightarrow> (m, None)
         | Escaped b \<Rightarrow> (m, Some b))
      in (set_done m1 t, r))"

text \<open>
  Modelled from the spec: \<open>iter_dag\<close> is defined in \<open>_utils.py\<close>, whose source is
  not at hand. The spec has it iterate the nodes in reverse topological order, leaves
  first; among siblings in reverse insertion order; one subtree finished before the next
  is begun. That is a post-order walk from the nodes that are nobody's child, the children
  of a node taken last to first. The walk carries fuel, the number of nodes, so that it is
  defined on any dictionary.
\<close>

definition children :: "(tid \<times> tid list) list \<Rightarrow> tid \<Rightarrow> tid list" where
  "children dag t = (case map_of dag t of None \<Rightarrow> [] | Some cs \<Rightarrow> cs)"

definition roots :: "(tid \<times> tid list) list \<Rightarrow> tid list" where
  "roots dag = filter (\<lambda>k. \<not> list_ex (\<lambda>(p, cs). k \<in> set cs) dag) (map fst dag)"

fun visit :: "nat \<Rightarrow> (tid \<times> tid list) list \<Rightarrow> tid \<Rightarrow> tid list" where
  "visit 0 dag t = []"
| "visit (Suc n) dag t = concat (map (visit n dag) (rev (children dag t))) @ [t]"

definition iter_dag :: "(tid \<times> tid list) list \<Rightarrow> tid list" where
  "iter_dag dag = concat (map (visit (length dag) dag) (rev (roots dag)))"

text \<open>
  \<open>_handle_cancelled\<close>, one segment at a time. The coroutine is at one of four places:
  waiting for \<open>cancelled\<close>; in the loop, about to cancel the next node of the iteration;
  in the loop, waiting for the \<open>done\<close> event of the node it has just cancelled; or
  returned. A step yields \<open>None\<close> when the coroutine cannot go on (the event it waits
  for is not set).
\<close>

datatype handler_pc =
    WaitCancelled
  | CancelNext "tid list"
  | AwaitDone tid "tid list"
  | HandlerExited

definition set_cancel_scope :: "manager \<Rightarrow> tid \<Rightarrow> manager" where
  "set_cancel_scope m t = m\<lparr>tasks := (tasks m)[t := (tasks m ! t)\<lparr>cancel_scope := True\<rparr>]\<rparr>"

fun handle_cancelled_step ::
  "manager \<Rightarrow> handler_pc \<Rightarrow> (manager \<times> handler_pc) option" where
  "handle_cancelled_step m WaitCancelled =
     (if cancelled m then Some (m, CancelNext (iter_dag (service_task_dag m))) else None)"
| "handle_cancelled_step m (CancelNext []) =
     Some (m\<lparr>task_nursery_cancelled := True\<rparr>, HandlerExited)"
| "handle_cancelled_step m (CancelNext (t # ts)) =
     Some (set_cancel_scope m t, AwaitDone t ts)"
| "handle_cancelled_step m (AwaitDone t ts) =
     (if is_done m t then Some (m, CancelNext ts) else None)"
| "handle_cancelled_step m HandlerExited = None"

subsection \<open>run\<close>

text \<open>
  \<open>run\<close> up to the point marked \<open>BLOCKING HERE\<close>: the two guards, the lock, the two
  nurseries with their first tasks, the \<open>started\<close> event.
\<close>

definition run_enter :: "manager \<Rightarrow> exn + manager" where
  "run_enter m =
     (if run_lock m then
        Inl (LifecycleError
          ''Cannot run a service with the run lock already engaged.  Already started?'')
      else if is_started m then
        Inl (LifecycleError ''Cannot run a service which is already started.'')
      else
        Inr (m\<lparr>run_lock := True,
               system_nursery := [HandleCancelled],
               system_nursery_cancelled := False,
               task_nursery := [HandleRun],
               task_nursery_cancelled := False,
               started := True\<rparr>))"

text \<open>How the \<open>async with\<close> block of the task nursery ends.\<close>

datatype nursery_exit = Drained | Failed raised

text \<open>
  \<open>run\<close> from the end of the task nursery's block: \<open>except Exception\<close> stores what the
  nursery raised; the system nursery is cancelled and closed and the lock released; the
  outer \<open>finally\<close> sets \<open>stopping\<close> and \<open>finished\<close>; a \<open>BaseException\<close> goes on to
  the caller; otherwise the buffer decides. \<open>trio.MultiError\<close> is taken as a constructor
  over the tuple it is given.
\<close>

definition run_exit :: "manager \<Rightarrow> nursery_exit \<Rightarrow> manager \<times> raised option" where
  "run_exit m ex =
     (let m1 = (case ex of Failed (Exception e) \<Rightarrow> m\<lparr>errors := errors m @ [e]\<rparr> | _ \<Rightarrow> m);
          m2 = m1\<lparr>system_nursery_cancelled := True\<rparr>;
          m3 = m2\<lparr>run_lock := False\<rparr>;
          m4 = m3\<lparr>stopping := True\<rparr>;
          m5 = m4\<lparr>finished := True\<rparr>;
          aggregate = (if did_error m5 then Some (MultiError (map Exception (errors m5)))
                       else None)
      in case ex of
           Drained \<Rightarrow> (m5, aggregate)
         | Failed (Exception e) \<Rightarrow> (m5, aggregate)
         | Failed b \<Rightarrow> (m5, Some b))"

text \<open>
  One invocation of \<open>run\<close>, whole. \<open>body\<close> stands for what happens while \<open>run\<close> is
  suspended at the end of the task nursery's block: the state the tasks leave, and how the
  nursery ends. The result has what \<open>run\<close> raises, if it raises.
\<close>

definition run :: "manager \<Rightarrow> (manager \<Rightarrow> manager \<times> nursery_exit) \<Rightarrow> manager \<times> raised option" where
  "run m body =
     (case run_enter m of
        Inl e \<Rightarrow> (m, Some (Exception e))
      | Inr m1 \<Rightarrow> (let (m2, ex) = body m1 in run_exit m2 ex))"



subsection \<open>The external API guard\<close>

text \<open>
  The service object carries its manager once a manager has been made for it
  (\<open>hasattr(self, "manager")\<close>). \<open>func_repr\<close> is the text \<open>{func}\<close> expands to.
\<close>

record service_obj =
  manager_of :: "manager option"

definition show_bool :: "bool \<Rightarrow> string" where
  "show_bool b = (if b then ''True'' else ''False'')"

definition not_running_message :: "string \<Rightarrow> manager \<Rightarrow> string" where
  "not_running_message func_repr m =
     ''Cannot access external API '' @ func_repr @ ''.  Service is not running: ''
     @ ''started='' @ show_bool (is_started m) @ ''  running='' @ show_bool (is_running m)
     @ '' stopping='' @ show_bool (is_stopping m) @ ''  finished='' @ show_bool (is_finished m)"

text \<open>A channel payload, \<open>Tuple[Optional[Any], Optional[BaseException]]\<close>.\<close>

type_synonym 'a payload = "'a option \<times> exn option"

text \<open>How the wrapped coroutine function ends when it is awaited.\<close>

datatype 'a api_outcome = ApiReturned "'a option" | ApiRaised exn

text \<open>\<open>_wait_api_fn\<close>: what the worker sends once \<open>api_fn\<close> has ended.\<close>

definition wait_api_fn :: "'a api_outcome \<Rightarrow> 'a payload" where
  "wait_api_fn out =
     (case out of ApiRaised e \<Rightarrow> (None, Some e) | ApiReturned result \<Rightarrow> (result, None))"

text \<open>
  \<open>_wait_stopping_or_finished\<close>: \<open>m\<close> is the manager when the watcher starts,
  \<open>later\<close> the manager when \<open>wait_stopping\<close> returns, if it ever does. \<open>None\<close>: the
  watcher never sends.
\<close>

definition wait_stopping_or_finished ::
  "manager \<Rightarrow> string \<Rightarrow> manager option \<Rightarrow> 'a payload option" where
  "wait_stopping_or_finished m func_repr later =
     (if is_stopping m \<or> is_finished m then
        Some (None, Some (ServiceCancelled (not_running_message func_repr m)))
      else
        (case later of
           None \<Rightarrow> None
         | Some m' \<Rightarrow>
             if stopping m' then
               Some (None, Some (ServiceCancelled (not_running_message func_repr m')))
             else None))"

text \<open>
  The race on the unbuffered channel, decided by the scheduler: the worker of the wrapped
  function sends first, having run it to its end; or the watcher does, the wrapped
  function having been started and not finished.
\<close>

datatype 'a race = ApiFirst "'a api_outcome" | WatcherFirst "manager option"

text \<open>
  \<open>inner\<close>, the wrapper \<open>external_api\<close> returns. The result has the number of times the
  wrapped function was called, and what the caller gets: \<open>None\<close> when
  \<open>receive_channel.receive()\<close> never returns, else the value returned or the exception
  raised.
\<close>

definition inner ::
  "string \<Rightarrow> service_obj \<Rightarrow> 'a race \<Rightarrow> nat \<times> (exn + 'a option) option" where
  "inner func_repr self rc =
     (case manager_of self of
        None \<Rightarrow>
          (0, Some (Inl (ServiceCancelled
             (''Cannot access external API '' @ func_repr @ ''.  Service has not been run.''))))
      | Some m \<Rightarrow>
          if \<not> is_running m then
            (0, Some (Inl (ServiceCancelled (not_running_message func_repr m))))
          else
            let received =
                  (case rc of
                     ApiFirst out \<Rightarrow> Some (wait_api_fn out)
                   | WatcherFirst later \<Rightarrow> wait_stopping_or_finished m func_repr later)
            in case received of
                 None \<Rightarrow> (1, None)
               | Some (result, err) \<Rightarrow>
                   (case err of
                      None \<Rightarrow> (1, Some (Inr result))
                    | Some e \<Rightarrow> (1, Some (Inl e))))"

section \<open>The manager and its tasks under a scheduler\<close>

text \<open>
  One manager together with the coroutines that work on it. Trio runs one task at a time
  and switches at suspension points only, so a run of the system is a sequence of
  events, each a segment of one coroutine or a call of a synchronous method. The state
  holds, beside the manager, the locals of the two system tasks: where
  \<open>_handle_cancelled\<close> stands and the copy of the DAG it iterates, and the node
  \<open>_handle_run\<close> created.
\<close>

record sys =
  mgr :: manager
  handler :: handler_pc
  snapshot :: "(tid \<times> tid list) list"
  run_node :: "tid option"

definition init_sys :: "nat \<Rightarrow> sys" where
  "init_sys svc =
     \<lparr> mgr = init_manager svc, handler = WaitCancelled, snapshot = [], run_node = None \<rparr>"

datatype event =
    Run
  | RunExit nursery_exit
  | HandleRunStart rt
  | HandleRunExit outcome
  | Cancel
  | RunTask rt async_fn bool string
  | RunChildService rt nat bool string
  | TaskStart tid rt
  | TaskExit tid outcome
  | HandlerStep

fun entry_of :: "tid \<Rightarrow> spawn \<Rightarrow> bool" where
  "entry_of t (RunAndManageTask f d n t') = (t' = t)"
| "entry_of t _ = False"

fun entry_done :: "manager \<Rightarrow> spawn \<Rightarrow> bool" where
  "entry_done m (RunAndManageTask f d n t) = is_done m t"
| "entry_done m _ = True"

text \<open>
  The task nursery's block ends when every task started in it has ended: \<open>_handle_run\<close>
  and every managed wrapper have set \<open>done\<close>.
\<close>

definition nursery_drained :: "sys \<Rightarrow> bool" where
  "nursery_drained s =
     ((case run_node s of None \<Rightarrow> False | Some t \<Rightarrow> is_done (mgr s) t)
      \<and> list_all (entry_done (mgr s)) (task_nursery (mgr s)))"

text \<open>
  An outcome can be had only if the task is there to have it: a task's own cancel scope
  absorbs a cancellation only if it was cancelled.
\<close>

definition may_end :: "manager \<Rightarrow> tid \<Rightarrow> outcome \<Rightarrow> bool" where
  "may_end m t out =
     (t < length (tasks m) \<and> \<not> is_done m t \<and> (out = Absorbed \<longrightarrow> cancel_scope (tasks m ! t)))"

text \<open>
  \<open>fire s e\<close>: the state after event \<open>e\<close>, or \<open>None\<close> when \<open>e\<close> cannot happen in
  \<open>s\<close>. A synchronous call that raises leaves the state as it is (the exception goes to
  the caller).
\<close>

fun fire :: "sys \<Rightarrow> event \<Rightarrow> sys option" where
  "fire s Run =
     (case run_enter (mgr s) of Inl e \<Rightarrow> Some s | Inr m \<Rightarrow> Some (s\<lparr>mgr := m\<rparr>))"
| "fire s (RunExit ex) =
     (if run_lock (mgr s) \<and> nursery_drained s then
        Some (s\<lparr>mgr := fst (run_exit (mgr s) ex), handler := HandlerExited\<rparr>)
      else None)"
| "fire s (HandleRunStart cur) =
     (if HandleRun \<in> set (task_nursery (mgr s)) \<and> run_node s = None then
        (let (m, t) = handle_run_enter (mgr s) cur in Some (s\<lparr>mgr := m, run_node := Some t\<rparr>))
      else None)"
| "fire s (HandleRunExit out) =
     (case run_node s of
        None \<Rightarrow> None
      | Some t \<Rightarrow>
          if may_end (mgr s) t out then Some (s\<lparr>mgr := fst (handle_run_exit (mgr s) t out)\<rparr>)
          else None)"
| "fire s Cancel =
     (case cancel (mgr s) of Inl e \<Rightarrow> Some s | Inr m \<Rightarrow> Some (s\<lparr>mgr := m\<rparr>))"
| "fire s (RunTask cur f d n) =
     (case run_task (mgr s) cur f d n of Inl e \<Rightarrow> Some s | Inr m \<Rightarrow> Some (s\<lparr>mgr := m\<rparr>))"
| "fire s (RunChildService cur svc d n) =
     (case run_child_service (mgr s) cur svc d n of
        Inl e \<Rightarrow> Some s
      | Inr (m, child) \<Rightarrow> Some (s\<lparr>mgr := m\<rparr>))"
| "fire s (TaskStart t cur) =
     (if list_ex (entry_of t) (task_nursery (mgr s)) \<and> \<not> has_trio_task (tasks (mgr s)) t then
        (case run_and_manage_task_enter (mgr s) t cur of
           Inl e \<Rightarrow> None
         | Inr m \<Rightarrow> Some (s\<lparr>mgr := m\<rparr>))
      else None)"
| "fire s (TaskExit t out) =
     (case find (entry_of t) (task_nursery (mgr s)) of
        Some (RunAndManageTask f d n t') \<Rightarrow>
          if has_trio_task (tasks (mgr s)) t \<and> may_end (mgr s) t out then
            Some (s\<lparr>mgr := fst (run_and_manage_task_exit (mgr s) d n t out)\<rparr>)
          else None
      | _ \<Rightarrow> None)"
| "fire s HandlerStep =
     (if HandleCancelled \<in> set (system_nursery (mgr s)) then
        (case handle_cancelled_step (mgr s) (handler s) of
           None \<Rightarrow> None
         | Some (m, pc) \<Rightarrow>
             Some (s\<lparr>mgr := m, handler := pc,
                     snapshot := (if handler s = WaitCancelled then service_task_dag (mgr s)
                                  else snapshot s)\<rparr>))
      else None)"

fun exec :: "sys \<Rightarrow> event list \<Rightarrow> sys option" where
  "exec s [] = Some s"
| "exec s (e # es) = (case fire s e of None \<Rightarrow> None | Some s' \<Rightarrow> exec s' es)"

text \<open>The edges of a DAG, and the nodes without a parent.\<close>

definition edges :: "(tid \<times> tid list) list \<Rightarrow> (tid \<times> tid) set" where
  "edges dag = {(p, c). \<exists>cs. (p, cs) \<in> set dag \<and> c \<in> set cs}"

definition parentless :: "manager \<Rightarrow> tid list" where
  "parentless m =
     filter (\<lambda>t. t < length (tasks m) \<and> parent (tasks m ! t) = None)
       (map fst (service_task_dag m))"

section \<open>Well-formed DAGs\<close>

text \<open>
  What the construction of the DAG maintains. Nodes are numbered in the order they were
  made; the keys of the dictionary are all the nodes, in that order; a child list has no
  node twice; a node is in the child list of \<open>p\<close> exactly when its parent is \<open>p\<close>; a
  child was made after its parent. \<open>wf_order\<close> is the part of it that the iteration
  order rests on.
\<close>

definition parents :: "manager \<Rightarrow> tid option list" where
  "parents m = map parent (tasks m)"

definition wf_order :: "(tid \<times> tid list) list \<Rightarrow> bool" where
  "wf_order dag =
     (map fst dag = [0..<length dag]
      \<and> (\<forall>p c. c \<in> set (children dag p) \<longrightarrow> p < c \<and> c < length dag))"

definition wf_shape :: "(tid \<times> tid list) list \<Rightarrow> tid option list \<Rightarrow> bool" where
  "wf_shape dag ps =
     (map fst dag = [0..<length ps]
      \<and> (\<forall>p. distinct (children dag p))
      \<and> (\<forall>p c. c \<in> set (children dag p) \<longrightarrow> p < c \<and> c < length ps \<and> ps ! c = Some p)
      \<and> (\<forall>t p. t < length ps \<and> ps ! t = Some p \<longrightarrow> t \<in> set (children dag p)))"

definition wf_dag :: "manager \<Rightarrow> bool" where
  "wf_dag m = wf_shape (service_task_dag m) (parents m)"

definition scope_cancelled :: "manager \<Rightarrow> tid \<Rightarrow> bool" where
  "scope_cancelled m t = (t < length (tasks m) \<and> cancel_scope (tasks m ! t))"

definition wf_forest :: "(tid \<times> tid list) list \<Rightarrow> bool" where
  "wf_forest dag =
     (wf_order dag
      \<and> (\<forall>p. distinct (children dag p))
      \<and> (\<forall>p q c. c \<in> set (children dag p) \<and> c \<in> set (children dag q) \<longrightarrow> p = q))"

section \<open>Invariants of the system\<close>

text \<open>
  What every event that is not a step of the cancellation handler and not the end of
  \<open>run\<close> does to the state: the handler's locals stay; events that are set stay set; a
  \<open>done\<close> event that is set stays set; no cancel scope changes; the DAG stays, or gets a
  parentless node, or (only while \<open>cancelled\<close> is not set) a node under an existing one.
\<close>

definition env_step :: "sys \<Rightarrow> sys \<Rightarrow> bool" where
  "env_step s s' =
     (handler s' = handler s \<and> snapshot s' = snapshot s
      \<and> (started (mgr s) \<longrightarrow> started (mgr s'))
      \<and> (cancelled (mgr s) \<longrightarrow> cancelled (mgr s'))
      \<and> ((run_lock (mgr s) \<longrightarrow> started (mgr s)) \<longrightarrow> (run_lock (mgr s') \<longrightarrow> started (mgr s')))
      \<and> (\<forall>x. is_done (mgr s) x \<longrightarrow> is_done (mgr s') x)
      \<and> (\<forall>x. scope_cancelled (mgr s') x = scope_cancelled (mgr s) x)
      \<and> ((service_task_dag (mgr s') = service_task_dag (mgr s)
           \<and> parents (mgr s') = parents (mgr s) \<and> run_node s' = run_node s)
         \<or> (service_task_dag (mgr s') =
               AList.update (length (parents (mgr s))) [] (service_task_dag (mgr s))
             \<and> parents (mgr s') = parents (mgr s) @ [None]
             \<and> (run_node s' = run_node s \<or> run_node s' = Some (length (parents (mgr s)))))
         \<or> (\<exists>q < length (parents (mgr s)). \<not> cancelled (mgr s)
             \<and> service_task_dag (mgr s') =
                 AList.update (length (parents (mgr s))) []
                   (AList.update q
                      (children (service_task_dag (mgr s)) q @ [length (parents (mgr s))])
                      (service_task_dag (mgr s)))
             \<and> parents (mgr s') = parents (mgr s) @ [Some q]
             \<and> run_node s' = run_node s)))"


text \<open>
  Where the handler stands in its iteration: the nodes before its position are the nodes
  whose cancel scope it has cancelled, and their \<open>done\<close> events are set (but for the
  node it is waiting for).
\<close>

definition handler_inv :: "sys \<Rightarrow> bool" where
  "handler_inv s =
     (case handler s of
        WaitCancelled \<Rightarrow> (\<forall>x. \<not> scope_cancelled (mgr s) x)
      | CancelNext ts \<Rightarrow>
          (\<exists>pre. iter_dag (snapshot s) = pre @ ts
             \<and> (\<forall>x \<in> set pre. is_done (mgr s) x)
             \<and> (\<forall>x. scope_cancelled (mgr s) x = (x \<in> set pre)))
      | AwaitDone t ts \<Rightarrow>
          (\<exists>pre. iter_dag (snapshot s) = pre @ t # ts
             \<and> (\<forall>x \<in> set pre. is_done (mgr s) x)
             \<and> (\<forall>x. scope_cancelled (mgr s) x = (x \<in> set pre \<or> x = t)))
      | HandlerExited \<Rightarrow>
          (\<exists>pre post. iter_dag (snapshot s) = pre @ post
             \<and> (\<forall>x \<in> set (butlast pre). is_done (mgr s) x)
             \<and> (\<forall>x. scope_cancelled (mgr s) x = (x \<in> set pre))))"

definition sys_inv :: "sys \<Rightarrow> bool" where
  "sys_inv s =
     (wf_dag (mgr s)
      \<and> wf_forest (snapshot s)
      \<and> length (snapshot s) \<le> length (parents (mgr s))
      \<and> handler_inv s
      \<and> (run_lock (mgr s) \<longrightarrow> started (mgr s))
      \<and> (\<forall>r. run_node s = Some r \<longrightarrow>
            r < length (parents (mgr s)) \<and> parents (mgr s) ! r = None)
      \<and> (handler s = WaitCancelled \<longrightarrow> snapshot s = [])
      \<and> (snapshot s \<noteq> [] \<longrightarrow>
            cancelled (mgr s)
            \<and> (\<forall>p. children (service_task_dag (mgr s)) p = children (snapshot s) p)))"

section \<open>Scenarios\<close>

text \<open>
  The service body starts a task and returns while the task is still running; then the
  service is cancelled and the handler takes its copy of the DAG.
\<close>

definition parent_returns_first :: "event list" where
  "parent_returns_first =
     [Run, HandleRunStart 1, RunTask 1 (UserFn 0) False ''child'', TaskStart 1 2,
      HandleRunExit Returned, Cancel, HandlerStep]"

text \<open>
  The service body starts a task; the service is cancelled while both run; the handler
  takes its copy of the DAG, cancels the task and waits for it; meanwhile the service
  body returns.
\<close>

definition parent_ends_first :: "event list" where
  "parent_ends_first =
     [Run, HandleRunStart 1, RunTask 1 (UserFn 0) False ''child'', TaskStart 1 2,
      Cancel, HandlerStep, HandlerStep, HandleRunExit Returned]"

text \<open>
  A task is scheduled by code that runs outside every managed task (runtime task 9 is no
  node's runtime task).
\<close>

definition spawn_from_outside :: "event list" where
  "spawn_from_outside =
     [Run, HandleRunStart 1, RunTask 9 (UserFn 0) False ''outside'']"

text \<open>Nested tasks, cancelled and wound up by the handler, to the end of \<open>run\<close>.\<close>

definition nested_cancellation :: "event list" where
  "nested_cancellation =
     [Run, HandleRunStart 1, RunTask 1 (UserFn 0) False ''A'', TaskStart 1 2,
      RunTask 2 (UserFn 1) False ''B'', TaskStart 2 3, Cancel,
      HandlerStep, HandlerStep, TaskExit 2 Absorbed, HandlerStep,
      HandlerStep, TaskExit 1 Absorbed, HandlerStep,
      HandlerStep, HandleRunExit Absorbed, HandlerStep, HandlerStep, RunExit Drained]"

text \<open>
  The same, up to the moment the handler has seen \<open>B\<close> end, has cancelled \<open>A\<close> and
  waits for it.
\<close>

definition mid_cancellation :: "event list" where
  "mid_cancellation = take 12 nested_cancellation"

text \<open>One event later: the task the handler waits for has ended.\<close>

definition awaited_task_ended :: "event list" where
  "awaited_task_ended = take 13 nested_cancellation"


section \<open>Properties\<close>

subsection \<open>cancel\<close>

lemma cancel_raises_iff:
  "(\<exists>e. cancel m = Inl e) = (\<not> started m)"
  by (simp add: cancel_def is_started_def)

lemma cancel_twice:
  "cancel m = Inr m' \<Longrightarrow> cancel m' = Inr m'"
  by (auto simp: cancel_def is_running_def is_started_def is_stopping_def is_finished_def
           split: if_splits)

lemma cancel_times_fix:
  "cancel m = Inr m \<Longrightarrow> cancel_times n m = Inr m"
  by (induction n) auto

text \<open>
  C5. \<open>cancel\<close> raises \<open>LifecycleError\<close> exactly when the manager was never started;
  started but not running, it returns the state unchanged; running, it returns the state
  with \<open>cancelled\<close> set and nothing else changed; it is a total function of the state
  (it never waits); and any number \<open>n + 1\<close> of successive calls gives what one call
  gives.
\<close>

theorem cancel_semantics:
  "((\<exists>e. cancel m = Inl e) = (\<not> is_started m))
   \<and> (\<not> is_started m \<longrightarrow>
        cancel m = Inl (LifecycleError ''Cannot cancel as service which was never started.''))
   \<and> (is_started m \<and> \<not> is_running m \<longrightarrow> cancel m = Inr m)
   \<and> (is_running m \<longrightarrow> cancel m = Inr (m\<lparr>cancelled := True\<rparr>))
   \<and> cancel_times (Suc n) m = cancel m"
proof -
  have "cancel_times (Suc n) m = cancel m"
  proof (cases "cancel m")
    case (Inl e)
    then show ?thesis by simp
  next
    case (Inr m')
    then have "cancel_times n m' = Inr m'"
      by (intro cancel_times_fix cancel_twice)
    with Inr show ?thesis by simp
  qed
  then show ?thesis
    by (auto simp: cancel_def is_running_def is_started_def)
qed

theorem cancel_semantics_witness:
  "\<not> is_started (init_manager 0)
   \<and> cancel (init_manager 0) =
       Inl (LifecycleError ''Cannot cancel as service which was never started.'')
   \<and> is_started ((init_manager 0)\<lparr>started := True, finished := True\<rparr>)
   \<and> \<not> is_running ((init_manager 0)\<lparr>started := True, finished := True\<rparr>)
   \<and> cancel ((init_manager 0)\<lparr>started := True, finished := True\<rparr>) =
       Inr ((init_manager 0)\<lparr>started := True, finished := True\<rparr>)
   \<and> is_running ((init_manager 0)\<lparr>started := True\<rparr>)
   \<and> cancel ((init_manager 0)\<lparr>started := True\<rparr>) =
       Inr ((init_manager 0)\<lparr>started := True, cancelled := True\<rparr>)
   \<and> cancel_times (Suc 2) ((init_manager 0)\<lparr>started := True\<rparr>) =
       Inr ((init_manager 0)\<lparr>started := True, cancelled := True\<rparr>)"
  using cancel_semantics [of "init_manager 0" 2]
    cancel_semantics [of "(init_manager 0)\<lparr>started := True, finished := True\<rparr>" 2]
    cancel_semantics [of "(init_manager 0)\<lparr>started := True\<rparr>" 2]
  by (simp add: init_manager_def is_started_def is_running_def is_stopping_def is_finished_def)

subsection \<open>stats\<close>

text \<open>
  C8. \<open>stats\<close> reports \<open>total_count = max(0, |dag| - 1)\<close>, with \<open>|dag|\<close> the number of keys
  of the DAG dictionary, and \<open>finished_count\<close> the smaller of \<open>total_count\<close> and the number
  of keys whose \<open>done\<close> event is set; so \<open>finished_count\<close> is never above
  \<open>total_count\<close> (and never negative).
\<close>

theorem stats_computation:
  "total_count (get_stats m) = max 0 (int (length (service_task_dag m)) - 1)
   \<and> finished_count (get_stats m) =
       min (total_count (get_stats m))
         (int (length (filter (is_done m) (map fst (service_task_dag m)))))
   \<and> finished_count (get_stats m) \<le> total_count (get_stats m)
   \<and> 0 \<le> finished_count (get_stats m)"
  by (simp add: get_stats_def Let_def)

subsection \<open>run_task\<close>

lemma find_parent_Some:
  "find_parent ts r ks = Some p \<Longrightarrow>
     p \<in> set ks \<and> p < length ts \<and> trio_task (ts ! p) = Some r"
  by (induction ks) (auto simp: has_trio_task_def split: if_splits)

lemma find_parent_None:
  "(find_parent ts r ks = None) =
     (\<forall>k \<in> set ks. \<not> (k < length ts \<and> trio_task (ts ! k) = Some r))"
  by (induction ks) (auto simp: has_trio_task_def)

lemma find_parent_first:
  "find_parent ts r ks = Some p \<Longrightarrow>
     \<exists>pre post. ks = pre @ p # post
        \<and> (\<forall>k \<in> set pre. \<not> (k < length ts \<and> trio_task (ts ! k) = Some r))"
proof (induction ks)
  case Nil
  then show ?case by simp
next
  case (Cons k ks)
  show ?case
  proof (cases "k < length ts \<and> trio_task (ts ! k) = Some r")
    case True
    with Cons.prems have "p = k" by (auto simp: has_trio_task_def)
    then have "k # ks = [] @ p # ks" by simp
    then show ?thesis by (metis empty_iff list.set(1))
  next
    case False
    with Cons.prems have "find_parent ts r ks = Some p"
      by (auto simp: has_trio_task_def split: if_splits)
    from Cons.IH [OF this] obtain pre post where
      "ks = pre @ p # post" "\<forall>k \<in> set pre. \<not> (k < length ts \<and> trio_task (ts ! k) = Some r)"
      by blast
    with False have "k # ks = (k # pre) @ p # post
      \<and> (\<forall>k \<in> set (k # pre). \<not> (k < length ts \<and> trio_task (ts ! k) = Some r))"
      by simp
    then show ?thesis by blast
  qed
qed

lemma get_parent_task_key:
  "get_parent_task m r = Some p \<Longrightarrow>
     p \<in> fst ` set (service_task_dag m) \<and> p < length (tasks m)
     \<and> trio_task (tasks m ! p) = Some r"
  using find_parent_Some [of "tasks m" r "map fst (service_task_dag m)" p]
  by (simp add: get_parent_task_def)

lemma map_of_key:
  "p \<in> fst ` set al \<Longrightarrow> \<exists>v. map_of al p = Some v"
  by (cases "map_of al p") (auto simp: map_of_eq_None_iff)


lemma get_parent_task_map_of:
  assumes "get_parent_task m r = Some p"
  shows "\<exists>cs. map_of (service_task_dag m) p = Some cs"
proof -
  from get_parent_task_key [OF assms] have "p \<in> fst ` set (service_task_dag m)" by simp
  then show ?thesis by (rule map_of_key)
qed

lemma run_task_root:
  assumes "is_running m" "\<not> is_cancelled m" "get_parent_task m cur = None"
  shows "run_task m cur f d n =
    Inr (m\<lparr>tasks := tasks m @ [\<lparr> name = n, daemon = d, done_set = False, cancel_scope = False,
                  parent = None, trio_task = None \<rparr>],
          service_task_dag := AList.update (length (tasks m)) [] (service_task_dag m),
          task_nursery := task_nursery m @ [RunAndManageTask f d n (length (tasks m))]\<rparr>)"
  using assms by (simp add: run_task_def Let_def)

lemma run_task_child:
  assumes "is_running m" "\<not> is_cancelled m" "get_parent_task m cur = Some p"
    "map_of (service_task_dag m) p = Some cs"
  shows "run_task m cur f d n =
    Inr (m\<lparr>tasks := tasks m @ [\<lparr> name = n, daemon = d, done_set = False, cancel_scope = False,
                  parent = Some p, trio_task = None \<rparr>],
          service_task_dag := AList.update (length (tasks m)) []
             (AList.update p (cs @ [length (tasks m)]) (service_task_dag m)),
          task_nursery := task_nursery m @ [RunAndManageTask f d n (length (tasks m))]\<rparr>)"
  using assms by (simp add: run_task_def Let_def)




lemma run_task_root_effect:
  assumes rn: "is_running m \<and> \<not> is_cancelled m" and None: "get_parent_task m cur = None"
  shows "\<exists>m'. run_task m cur f d n = Inr m'
           \<and> tasks m' = tasks m @
               [\<lparr> name = n, daemon = d, done_set = False, cancel_scope = False,
                  parent = get_parent_task m cur, trio_task = None \<rparr>]
           \<and> map_of (service_task_dag m') =
               (case get_parent_task m cur of
                  None \<Rightarrow> (map_of (service_task_dag m))(length (tasks m) \<mapsto> [])
                | Some p \<Rightarrow>
                    (map_of (service_task_dag m))
                      (p \<mapsto> children (service_task_dag m) p @ [length (tasks m)],
                       length (tasks m) \<mapsto> []))
           \<and> task_nursery m' = task_nursery m @ [RunAndManageTask f d n (length (tasks m))]
           \<and> m'\<lparr>tasks := tasks m, service_task_dag := service_task_dag m,
                 task_nursery := task_nursery m\<rparr> = m"
proof -
  have "run_task m cur f d n =
      Inr (m\<lparr>tasks := tasks m @ [\<lparr> name = n, daemon = d, done_set = False, cancel_scope = False,
                  parent = None, trio_task = None \<rparr>],
          service_task_dag := AList.update (length (tasks m)) [] (service_task_dag m),
          task_nursery := task_nursery m @ [RunAndManageTask f d n (length (tasks m))]\<rparr>)"
    using run_task_root [of m cur f d n] rn None by simp
  then show ?thesis
    by (simp add: None update_conv')
qed



lemma run_task_child_effect:
  assumes rn: "is_running m \<and> \<not> is_cancelled m" and par: "get_parent_task m cur = Some p"
  shows "\<exists>m'. run_task m cur f d n = Inr m'
           \<and> tasks m' = tasks m @
               [\<lparr> name = n, daemon = d, done_set = False, cancel_scope = False,
                  parent = get_parent_task m cur, trio_task = None \<rparr>]
           \<and> map_of (service_task_dag m') =
               (case get_parent_task m cur of
                  None \<Rightarrow> (map_of (service_task_dag m))(length (tasks m) \<mapsto> [])
                | Some p \<Rightarrow>
                    (map_of (service_task_dag m))
                      (p \<mapsto> children (service_task_dag m) p @ [length (tasks m)],
                       length (tasks m) \<mapsto> []))
           \<and> task_nursery m' = task_nursery m @ [RunAndManageTask f d n (length (tasks m))]
           \<and> m'\<lparr>tasks := tasks m, service_task_dag := service_task_dag m,
                 task_nursery := task_nursery m\<rparr> = m"
proof -
  from get_parent_task_map_of [OF par] obtain cs where
    cs: "map_of (service_task_dag m) p = Some cs" ..
  define m' where "m' = m\<lparr>tasks := tasks m @ [\<lparr> name = n, daemon = d, done_set = False,
                  cancel_scope = False, parent = Some p, trio_task = None \<rparr>],
          service_task_dag := AList.update (length (tasks m)) []
             (AList.update p (cs @ [length (tasks m)]) (service_task_dag m)),
          task_nursery := task_nursery m @ [RunAndManageTask f d n (length (tasks m))]\<rparr>"
  have r: "run_task m cur f d n = Inr m'"
    unfolding m'_def using run_task_child [of m cur p cs f d n] rn par cs by simp
  have ch: "children (service_task_dag m) p = cs"
    by (simp add: children_def cs)
  have 1: "tasks m' = tasks m @
               [\<lparr> name = n, daemon = d, done_set = False, cancel_scope = False,
                  parent = get_parent_task m cur, trio_task = None \<rparr>]"
    by (simp add: m'_def par)
  have 2: "map_of (service_task_dag m') =
     (map_of (service_task_dag m))
                      (p \<mapsto> children (service_task_dag m) p @ [length (tasks m)],
                       length (tasks m) \<mapsto> [])"
    unfolding ch by (simp add: m'_def update_conv')
  have 3: "task_nursery m' = task_nursery m @ [RunAndManageTask f d n (length (tasks m))]"
    by (simp add: m'_def)
  have 4: "m'\<lparr>tasks := tasks m, service_task_dag := service_task_dag m,
                 task_nursery := task_nursery m\<rparr> = m"
    by (simp add: m'_def)
  from r 1 2 3 4 show ?thesis
    unfolding par option.case by blast
qed


text \<open>
  C4. \<open>run_task\<close> on a manager that is not running raises \<open>LifecycleError\<close>; on a running
  manager whose \<open>cancelled\<close> event is set it returns with the state as it was (no node,
  no DAG entry, nothing scheduled); otherwise it returns a state with one more task, new
  and not started, whose parent is the node \<open>_get_parent_task\<close> finds for the current
  runtime task; the DAG has that node appended to its parent's child list (no list is
  touched when there is no parent) and an empty child list for the node itself; the
  managed wrapper for the node is the last call of \<open>start_soon\<close> on the task nursery; and
  nothing else has changed. \<open>run_task\<close> is a function of the state: it waits for nothing.
\<close>

theorem run_task_semantics:
  "(\<not> is_running m \<longrightarrow>
      run_task m cur f d n =
        Inl (LifecycleError ''Tasks may not be scheduled if the service is not running''))
   \<and> (is_running m \<and> is_cancelled m \<longrightarrow> run_task m cur f d n = Inr m)
   \<and> (is_running m \<and> \<not> is_cancelled m \<longrightarrow>
        (\<exists>m'. run_task m cur f d n = Inr m'
           \<and> tasks m' = tasks m @
               [\<lparr> name = n, daemon = d, done_set = False, cancel_scope = False,
                  parent = get_parent_task m cur, trio_task = None \<rparr>]
           \<and> map_of (service_task_dag m') =
               (case get_parent_task m cur of
                  None \<Rightarrow> (map_of (service_task_dag m))(length (tasks m) \<mapsto> [])
                | Some p \<Rightarrow>
                    (map_of (service_task_dag m))
                      (p \<mapsto> children (service_task_dag m) p @ [length (tasks m)],
                       length (tasks m) \<mapsto> []))
           \<and> task_nursery m' = task_nursery m @ [RunAndManageTask f d n (length (tasks m))]
           \<and> m'\<lparr>tasks := tasks m, service_task_dag := service_task_dag m,
                 task_nursery := task_nursery m\<rparr> = m))"
proof (intro conjI impI)
  show "run_task m cur f d n =
        Inl (LifecycleError ''Tasks may not be scheduled if the service is not running'')"
    if "\<not> is_running m"
    using that by (simp add: run_task_def)
next
  show "run_task m cur f d n = Inr m" if "is_running m \<and> is_cancelled m"
    using that by (simp add: run_task_def)
next
  assume rn: "is_running m \<and> \<not> is_cancelled m"
  show "\<exists>m'. run_task m cur f d n = Inr m'
           \<and> tasks m' = tasks m @
               [\<lparr> name = n, daemon = d, done_set = False, cancel_scope = False,
                  parent = get_parent_task m cur, trio_task = None \<rparr>]
           \<and> map_of (service_task_dag m') =
               (case get_parent_task m cur of
                  None \<Rightarrow> (map_of (service_task_dag m))(length (tasks m) \<mapsto> [])
                | Some p \<Rightarrow>
                    (map_of (service_task_dag m))
                      (p \<mapsto> children (service_task_dag m) p @ [length (tasks m)],
                       length (tasks m) \<mapsto> []))
           \<and> task_nursery m' = task_nursery m @ [RunAndManageTask f d n (length (tasks m))]
           \<and> m'\<lparr>tasks := tasks m, service_task_dag := service_task_dag m,
                 task_nursery := task_nursery m\<rparr> = m"
  proof (cases "get_parent_task m cur")
    case None
    from run_task_root_effect [OF rn None] show ?thesis .
  next
    case (Some p)
    from run_task_child_effect [OF rn Some] show ?thesis .
  qed
qed

theorem run_task_semantics_witness:
  "\<not> is_running (init_manager 0)
   \<and> run_task (init_manager 0) 7 (UserFn 1) False ''t'' =
       Inl (LifecycleError ''Tasks may not be scheduled if the service is not running'')
   \<and> is_running ((init_manager 0)\<lparr>started := True, cancelled := True\<rparr>)
   \<and> is_cancelled ((init_manager 0)\<lparr>started := True, cancelled := True\<rparr>)
   \<and> run_task ((init_manager 0)\<lparr>started := True, cancelled := True\<rparr>) 7 (UserFn 1) False ''t'' =
       Inr ((init_manager 0)\<lparr>started := True, cancelled := True\<rparr>)
   \<and> is_running (fst (handle_run_enter ((init_manager 0)\<lparr>started := True\<rparr>) 7))
   \<and> \<not> is_cancelled (fst (handle_run_enter ((init_manager 0)\<lparr>started := True\<rparr>) 7))
   \<and> (\<exists>m'. run_task (fst (handle_run_enter ((init_manager 0)\<lparr>started := True\<rparr>) 7))
                7 (UserFn 1) True ''t'' = Inr m'
         \<and> map (\<lambda>t. (name t, daemon t, parent t)) (tasks m') =
             [(''run'', False, None), (''t'', True, Some 0)]
         \<and> map_of (service_task_dag m') 0 = Some [1]
         \<and> map_of (service_task_dag m') 1 = Some []
         \<and> task_nursery m' = [RunAndManageTask (UserFn 1) True ''t'' 1])"
  using run_task_semantics [of "init_manager 0" 7 "UserFn 1" False "''t''"]
    run_task_semantics [of "(init_manager 0)\<lparr>started := True, cancelled := True\<rparr>" 7
      "UserFn 1" False "''t''"]
    run_task_semantics [of "fst (handle_run_enter ((init_manager 0)\<lparr>started := True\<rparr>) 7)" 7
      "UserFn 1" True "''t''"]
  by (auto simp: init_manager_def is_started_def is_running_def is_stopping_def is_finished_def
      is_cancelled_def handle_run_enter_def get_parent_task_def has_trio_task_def children_def
      Let_def)

subsection \<open>The managed task wrapper\<close>

lemma set_done_is_done:
  "t < length (tasks m) \<Longrightarrow> is_done (set_done m t) t"
  by (simp add: set_done_def is_done_def)

lemma set_done_fields:
  "errors (set_done m t) = errors m" "cancelled (set_done m t) = cancelled m"
  "length (tasks (set_done m t)) = length (tasks m)"
  by (simp_all add: set_done_def)

lemma cancel_started:
  "is_started m \<Longrightarrow>
     cancel m = Inr (m\<lparr>cancelled := cancelled m \<or> is_running m\<rparr>)"
  by (cases "is_running m") (simp_all add: cancel_def)

lemma exit_Raised:
  "is_started m \<Longrightarrow>
   run_and_manage_task_exit m d n t (Raised e) =
     (set_done (m\<lparr>errors := errors m @ [e], cancelled := cancelled m \<or> is_running m\<rparr>) t, None)"
  by (simp add: run_and_manage_task_exit_def cancel_started is_started_def is_running_def
      is_stopping_def is_finished_def)

lemma exit_Returned_daemon:
  "is_started m \<Longrightarrow>
   run_and_manage_task_exit m True n t Returned =
     (set_done (m\<lparr>cancelled := cancelled m \<or> is_running m\<rparr>) t,
      Some (Exception (DaemonTaskExit (''Daemon task '' @ n @ '' exited''))))"
  by (simp add: run_and_manage_task_exit_def cancel_started)

lemma exit_Returned_plain:
  "run_and_manage_task_exit m False n t Returned = (set_done m t, None)"
  by (simp add: run_and_manage_task_exit_def)

lemma cancel_tasks:
  "cancel m = Inr m' \<Longrightarrow> tasks m' = tasks m"
  by (auto simp: cancel_def split: if_splits)

lemma exit_tasks:
  "tasks (fst (run_and_manage_task_exit m d n t out)) =
     (tasks m)[t := (tasks m ! t)\<lparr>done_set := True\<rparr>]"
proof (cases out)
  case Returned
  then show ?thesis
    by (cases "cancel m")
       (auto simp: run_and_manage_task_exit_def set_done_def dest: cancel_tasks)
next
  case (Raised e)
  then show ?thesis
    by (cases "cancel (m\<lparr>errors := errors m @ [e]\<rparr>)")
       (auto simp: run_and_manage_task_exit_def set_done_def dest: cancel_tasks)
next
  case Absorbed
  then show ?thesis by (simp add: run_and_manage_task_exit_def set_done_def)
next
  case (Escaped b)
  then show ?thesis by (simp add: run_and_manage_task_exit_def set_done_def)
qed

lemma exit_sets_done:
  "t < length (tasks m) \<Longrightarrow> is_done (fst (run_and_manage_task_exit m d n t out)) t"
  by (simp add: is_done_def exit_tasks)

text \<open>
  C3. The managed wrapper, from the moment the wrapped function ends. Whatever the way it
  ends (return, exception, cancellation absorbed by the task's scope, cancellation passing
  through), the \<open>done\<close> event of the task is set. On a started manager: when the
  function raises an exception, the exception is the new last element of the error buffer
  and \<open>cancel()\<close> has been called (the \<open>cancelled\<close> event is set if the manager was
  running), and the wrapper itself raises nothing; when a daemon's function returns,
  \<open>cancel()\<close> has been called and the wrapper raises \<open>DaemonTaskExit\<close> into the task
  nursery; when another task's function returns, nothing is stored, cancelled or raised.
\<close>

theorem managed_task_wrapper:
  "(t < length (tasks m) \<longrightarrow> is_done (fst (run_and_manage_task_exit m d n t out)) t)
   \<and> (is_started m \<longrightarrow>
        (\<forall>e. out = Raised e \<longrightarrow>
           errors (fst (run_and_manage_task_exit m d n t out)) = errors m @ [e]
           \<and> cancelled (fst (run_and_manage_task_exit m d n t out)) = (cancelled m \<or> is_running m)
           \<and> snd (run_and_manage_task_exit m d n t out) = None)
        \<and> (out = Returned \<and> d \<longrightarrow>
           errors (fst (run_and_manage_task_exit m d n t out)) = errors m
           \<and> cancelled (fst (run_and_manage_task_exit m d n t out)) = (cancelled m \<or> is_running m)
           \<and> snd (run_and_manage_task_exit m d n t out) =
               Some (Exception (DaemonTaskExit (''Daemon task '' @ n @ '' exited''))))
        \<and> (out = Returned \<and> \<not> d \<longrightarrow>
           errors (fst (run_and_manage_task_exit m d n t out)) = errors m
           \<and> cancelled (fst (run_and_manage_task_exit m d n t out)) = cancelled m
           \<and> snd (run_and_manage_task_exit m d n t out) = None))"
  using exit_sets_done [of t m d n out]
  by (auto simp: exit_Raised exit_Returned_daemon exit_Returned_plain set_done_fields)


theorem managed_task_wrapper_witness:
  "0 < length (tasks (fst (handle_run_enter ((init_manager 0)\<lparr>started := True\<rparr>) 7)))
   \<and> is_started (fst (handle_run_enter ((init_manager 0)\<lparr>started := True\<rparr>) 7))
   \<and> is_done (fst (run_and_manage_task_exit
         (fst (handle_run_enter ((init_manager 0)\<lparr>started := True\<rparr>) 7))
         False ''w'' 0 (Raised (UserError ''x'')))) 0
   \<and> errors (fst (run_and_manage_task_exit
         (fst (handle_run_enter ((init_manager 0)\<lparr>started := True\<rparr>) 7))
         False ''w'' 0 (Raised (UserError ''x'')))) = [UserError ''x'']
   \<and> cancelled (fst (run_and_manage_task_exit
         (fst (handle_run_enter ((init_manager 0)\<lparr>started := True\<rparr>) 7))
         False ''w'' 0 (Raised (UserError ''x''))))
   \<and> is_done (fst (run_and_manage_task_exit
         (fst (handle_run_enter ((init_manager 0)\<lparr>started := True\<rparr>) 7))
         True ''w'' 0 Returned)) 0
   \<and> cancelled (fst (run_and_manage_task_exit
         (fst (handle_run_enter ((init_manager 0)\<lparr>started := True\<rparr>) 7))
         True ''w'' 0 Returned))
   \<and> snd (run_and_manage_task_exit
         (fst (handle_run_enter ((init_manager 0)\<lparr>started := True\<rparr>) 7))
         True ''w'' 0 Returned) = Some (Exception (DaemonTaskExit ''Daemon task w exited''))
   \<and> is_done (fst (run_and_manage_task_exit
         (fst (handle_run_enter ((init_manager 0)\<lparr>started := True\<rparr>) 7))
         False ''w'' 0 Returned)) 0
   \<and> \<not> cancelled (fst (run_and_manage_task_exit
         (fst (handle_run_enter ((init_manager 0)\<lparr>started := True\<rparr>) 7))
         False ''w'' 0 Returned))
   \<and> is_done (fst (run_and_manage_task_exit
         (fst (handle_run_enter ((init_manager 0)\<lparr>started := True\<rparr>) 7))
         False ''w'' 0 Absorbed)) 0"
  using managed_task_wrapper [of 0 "fst (handle_run_enter ((init_manager 0)\<lparr>started := True\<rparr>) 7)"
      False "''w''" "Raised (UserError ''x'')"]
    managed_task_wrapper [of 0 "fst (handle_run_enter ((init_manager 0)\<lparr>started := True\<rparr>) 7)"
      True "''w''" Returned]
    managed_task_wrapper [of 0 "fst (handle_run_enter ((init_manager 0)\<lparr>started := True\<rparr>) 7)"
      False "''w''" Returned]
    managed_task_wrapper [of 0 "fst (handle_run_enter ((init_manager 0)\<lparr>started := True\<rparr>) 7)"
      False "''w''" Absorbed]
  by (simp add: init_manager_def handle_run_enter_def is_started_def is_running_def
      is_stopping_def is_finished_def Let_def)

subsection \<open>run_child_service\<close>

text \<open>
  C10. On a manager that is running with \<open>cancelled\<close> set, \<open>run_child_service\<close> still
  makes and returns a manager for the service, in its initial state (not started); the
  call of \<open>run_task\<close> inside is the no-op, so the parent is as it was: no node, no DAG
  entry, and no call of \<open>start_soon\<close> that would ever run the child's \<open>run\<close> (the
  only place that sets its \<open>started\<close> event).
\<close>

theorem run_child_service_when_cancelled:
  "is_running m \<and> is_cancelled m \<longrightarrow>
     run_child_service m cur svc d n = Inr (m, init_manager svc)
     \<and> service (init_manager svc) = svc
     \<and> \<not> is_started (init_manager svc)
     \<and> run_task m cur (ManagerRun svc) d n = Inr m
     \<and> (mgr s = m \<longrightarrow> fire s (RunChildService cur svc d n) = Some s)"
  by (simp add: run_child_service_def run_task_def init_manager_def is_started_def)

theorem run_child_service_when_cancelled_witness:
  "is_running ((init_manager 0)\<lparr>started := True, cancelled := True\<rparr>)
   \<and> is_cancelled ((init_manager 0)\<lparr>started := True, cancelled := True\<rparr>)
   \<and> run_child_service ((init_manager 0)\<lparr>started := True, cancelled := True\<rparr>) 7 5 False ''c'' =
       Inr ((init_manager 0)\<lparr>started := True, cancelled := True\<rparr>, init_manager 5)
   \<and> \<not> is_started (init_manager 5)
   \<and> fire ((init_sys 0)\<lparr>mgr := (init_manager 0)\<lparr>started := True, cancelled := True\<rparr>\<rparr>)
         (RunChildService 7 5 False ''c'') =
       Some ((init_sys 0)\<lparr>mgr := (init_manager 0)\<lparr>started := True, cancelled := True\<rparr>\<rparr>)"
  using run_child_service_when_cancelled
    [of "(init_manager 0)\<lparr>started := True, cancelled := True\<rparr>" 7 5 False "''c''"
        "(init_sys 0)\<lparr>mgr := (init_manager 0)\<lparr>started := True, cancelled := True\<rparr>\<rparr>"]
  by (simp add: init_manager_def is_started_def is_running_def is_stopping_def
      is_finished_def is_cancelled_def)

subsection \<open>run\<close>

lemma run_enter_guard:
  "run_lock m \<or> is_started m \<Longrightarrow> \<exists>msg. run_enter m = Inl (LifecycleError msg)"
  by (auto simp: run_enter_def)










subsection \<open>The external API guard\<close>

lemma inner_no_manager:
  "manager_of self = None \<Longrightarrow>
     inner f self rc =
       (0, Some (Inl (ServiceCancelled
          (''Cannot access external API '' @ f @ ''.  Service has not been run.''))))"
  by (simp add: inner_def)

lemma inner_not_running:
  "manager_of self = Some m \<Longrightarrow> \<not> is_running m \<Longrightarrow>
     inner f self rc = (0, Some (Inl (ServiceCancelled (not_running_message f m))))"
  by (simp add: inner_def)

lemma inner_api_first:
  "manager_of self = Some m \<Longrightarrow> is_running m \<Longrightarrow>
     inner f self (ApiFirst out) =
       (1, Some (case out of ApiReturned v \<Rightarrow> Inr v | ApiRaised e \<Rightarrow> Inl e))"
  by (cases out) (simp_all add: inner_def wait_api_fn_def)

lemma inner_watcher_first:
  "manager_of self = Some m \<Longrightarrow> is_running m \<Longrightarrow>
     inner f self (WatcherFirst later) =
       (1, case later of
             None \<Rightarrow> None
           | Some m' \<Rightarrow>
               if stopping m' then Some (Inl (ServiceCancelled (not_running_message f m')))
               else None)"
  by (cases later)
     (simp_all add: inner_def wait_stopping_or_finished_def is_running_def is_stopping_def
        is_finished_def)

text \<open>
  C6. A wrapped method called on a service without a manager raises \<open>ServiceCancelled\<close>
  with the text "Service has not been run."; called on a service whose manager is not
  running it raises \<open>ServiceCancelled\<close> with the status dump; in both the wrapped function
  is not called. Otherwise the wrapped function is called once and the caller takes one
  payload from the channel: if the worker of the wrapped function sends first, the caller
  returns the function's result or raises the function's exception; if the watcher sends
  first (the \<open>stopping\<close> event was set), the caller raises \<open>ServiceCancelled\<close> with the
  status dump of that moment. The caller gets nothing only as long as nobody sends.
\<close>

theorem external_api_guard:
  "(manager_of self = None \<longrightarrow>
      inner f self rc =
        (0, Some (Inl (ServiceCancelled
           (''Cannot access external API '' @ f @ ''.  Service has not been run.'')))))
   \<and> (\<forall>m. manager_of self = Some m \<and> \<not> is_running m \<longrightarrow>
        inner f self rc = (0, Some (Inl (ServiceCancelled (not_running_message f m)))))
   \<and> (\<forall>m. manager_of self = Some m \<and> is_running m \<longrightarrow>
        fst (inner f self rc) = 1
        \<and> (\<forall>v. rc = ApiFirst (ApiReturned v) \<longrightarrow> snd (inner f self rc) = Some (Inr v))
        \<and> (\<forall>e. rc = ApiFirst (ApiRaised e) \<longrightarrow> snd (inner f self rc) = Some (Inl e))
        \<and> (\<forall>m'. rc = WatcherFirst (Some m') \<and> stopping m' \<longrightarrow>
              snd (inner f self rc) =
                Some (Inl (ServiceCancelled (not_running_message f m'))))
        \<and> (snd (inner f self rc) = None) =
             (rc = WatcherFirst None \<or> (\<exists>m'. rc = WatcherFirst (Some m') \<and> \<not> stopping m')))"
proof (intro conjI allI impI)
  show "inner f self rc =
        (0, Some (Inl (ServiceCancelled
           (''Cannot access external API '' @ f @ ''.  Service has not been run.''))))"
    if "manager_of self = None"
    using that by (rule inner_no_manager)
next
  fix m assume "manager_of self = Some m \<and> \<not> is_running m"
  then show "inner f self rc = (0, Some (Inl (ServiceCancelled (not_running_message f m))))"
    by (simp add: inner_not_running)
next
  fix m assume a: "manager_of self = Some m \<and> is_running m"
  show "fst (inner f self rc) = 1"
    by (cases rc) (simp_all add: a inner_api_first inner_watcher_first)
  show "snd (inner f self rc) = Some (Inr v)" if "rc = ApiFirst (ApiReturned v)" for v
    using that a by (simp add: inner_api_first)
  show "snd (inner f self rc) = Some (Inl e)" if "rc = ApiFirst (ApiRaised e)" for e
    using that a by (simp add: inner_api_first)
  show "snd (inner f self rc) = Some (Inl (ServiceCancelled (not_running_message f m')))"
    if "rc = WatcherFirst (Some m') \<and> stopping m'" for m'
    using that a by (simp add: inner_watcher_first)
  show "(snd (inner f self rc) = None) =
          (rc = WatcherFirst None \<or> (\<exists>m'. rc = WatcherFirst (Some m') \<and> \<not> stopping m'))"
  proof (cases rc)
    case (ApiFirst out)
    with a show ?thesis by (cases out) (simp_all add: inner_api_first)
  next
    case (WatcherFirst later)
    with a show ?thesis by (cases later) (simp_all add: inner_watcher_first)
  qed
qed


theorem external_api_guard_witness:
  "manager_of \<lparr>manager_of = None\<rparr> = None
   \<and> inner ''f'' \<lparr>manager_of = None\<rparr> (ApiFirst (ApiReturned (Some (1::nat)))) =
       (0, Some (Inl (ServiceCancelled
          ''Cannot access external API f.  Service has not been run.'')))
   \<and> \<not> is_running (init_manager 0)
   \<and> inner ''f'' \<lparr>manager_of = Some (init_manager 0)\<rparr> (ApiFirst (ApiReturned (Some (1::nat)))) =
       (0, Some (Inl (ServiceCancelled (not_running_message ''f'' (init_manager 0)))))
   \<and> not_running_message ''f'' (init_manager 0) =
       ''Cannot access external API f.  Service is not running: started=False  running=False stopping=False  finished=False''
   \<and> is_running ((init_manager 0)\<lparr>started := True\<rparr>)
   \<and> inner ''f'' \<lparr>manager_of = Some ((init_manager 0)\<lparr>started := True\<rparr>)\<rparr>
         (ApiFirst (ApiReturned (Some (1::nat)))) = (1, Some (Inr (Some 1)))
   \<and> inner ''f'' \<lparr>manager_of = Some ((init_manager 0)\<lparr>started := True\<rparr>)\<rparr>
         (ApiFirst (ApiRaised (UserError ''x'')) :: nat race) = (1, Some (Inl (UserError ''x'')))
   \<and> inner ''f'' \<lparr>manager_of = Some ((init_manager 0)\<lparr>started := True\<rparr>)\<rparr>
         (WatcherFirst (Some ((init_manager 0)\<lparr>started := True, stopping := True\<rparr>)) :: nat race) =
       (1, Some (Inl (ServiceCancelled
          ''Cannot access external API f.  Service is not running: started=True  running=False stopping=True  finished=False'')))
   \<and> inner ''f'' \<lparr>manager_of = Some ((init_manager 0)\<lparr>started := True\<rparr>)\<rparr>
         (WatcherFirst None :: nat race) = (1, None)"
  using external_api_guard [of "\<lparr>manager_of = None\<rparr>" "''f''" "ApiFirst (ApiReturned (Some (1::nat)))"]
    external_api_guard [of "\<lparr>manager_of = Some (init_manager 0)\<rparr>" "''f''"
      "ApiFirst (ApiReturned (Some (1::nat)))"]
    external_api_guard [of "\<lparr>manager_of = Some ((init_manager 0)\<lparr>started := True\<rparr>)\<rparr>" "''f''"
      "ApiFirst (ApiReturned (Some (1::nat)))"]
    external_api_guard [of "\<lparr>manager_of = Some ((init_manager 0)\<lparr>started := True\<rparr>)\<rparr>" "''f''"
      "ApiFirst (ApiRaised (UserError ''x'')) :: nat race"]
    external_api_guard [of "\<lparr>manager_of = Some ((init_manager 0)\<lparr>started := True\<rparr>)\<rparr>" "''f''"
      "WatcherFirst (Some ((init_manager 0)\<lparr>started := True, stopping := True\<rparr>)) :: nat race"]
    external_api_guard [of "\<lparr>manager_of = Some ((init_manager 0)\<lparr>started := True\<rparr>)\<rparr>" "''f''"
      "WatcherFirst None :: nat race"]
  by (simp add: inner_def wait_api_fn_def wait_stopping_or_finished_def not_running_message_def
      show_bool_def init_manager_def is_started_def is_running_def is_stopping_def
      is_finished_def)

section \<open>The iteration order of the cancellation handler\<close>

lemma concat_split_elem:
  "concat xss = xs @ p # ys \<Longrightarrow>
     \<exists>seg \<in> set xss. \<exists>xs1 ys1. seg = xs1 @ p # ys1 \<and> set xs1 \<subseteq> set xs"
proof (induction xss arbitrary: xs)
  case Nil
  then show ?case by simp
next
  case (Cons seg xss)
  from Cons.prems have "seg @ concat xss = xs @ p # ys" by simp
  then consider us where "seg = xs @ us" "us @ concat xss = p # ys"
    | us where "seg @ us = xs" "concat xss = us @ p # ys"
    by (auto simp: append_eq_append_conv2)
  then show ?case
  proof cases
    case 1
    show ?thesis
    proof (cases us)
      case Nil
      with 1 have "concat xss = [] @ p # ys" by simp
      from Cons.IH [OF this] obtain seg' xs1 ys1 where
        "seg' \<in> set xss" "seg' = xs1 @ p # ys1" "set xs1 \<subseteq> set []"
        by blast
      then have "seg' \<in> set (seg # xss) \<and> seg' = xs1 @ p # ys1 \<and> set xs1 \<subseteq> set xs"
        by simp
      then show ?thesis by blast
    next
      case (Cons u us')
      with 1 have "seg \<in> set (seg # xss) \<and> seg = xs @ p # us' \<and> set xs \<subseteq> set xs"
        by simp
      then show ?thesis by blast
    qed
  next
    case 2
    from Cons.IH [OF 2(2)] obtain seg' xs1 ys1 where
      "seg' \<in> set xss" "seg' = xs1 @ p # ys1" "set xs1 \<subseteq> set us"
      by blast
    with 2(1) have "seg' \<in> set (seg # xss) \<and> seg' = xs1 @ p # ys1 \<and> set xs1 \<subseteq> set xs"
      by auto
    then show ?thesis by blast
  qed
qed

lemma children_not_key:
  "t \<notin> fst ` set dag \<Longrightarrow> children dag t = []"
  by (simp add: children_def map_of_eq_None_iff [THEN iffD2])

lemma visit_ge:
  "wf_order dag \<Longrightarrow> x \<in> set (visit n dag t) \<Longrightarrow> t \<le> x"
proof (induction n arbitrary: t)
  case 0
  then show ?case by simp
next
  case (Suc n)
  from Suc.prems(2) consider "x = t"
    | c where "c \<in> set (children dag t)" "x \<in> set (visit n dag c)"
    by auto
  then show ?case
  proof cases
    case 1
    then show ?thesis by simp
  next
    case 2
    from Suc.IH [OF Suc.prems(1) 2(2)] have "c \<le> x" .
    moreover from Suc.prems(1) 2(1) have "t < c" by (simp add: wf_order_def)
    ultimately show ?thesis by simp
  qed
qed

lemma visit_self:
  "0 < n \<Longrightarrow> t \<in> set (visit n dag t)"
  by (cases n) simp_all

lemma visit_child_closed:
  "wf_order dag \<Longrightarrow> length dag - t \<le> n \<Longrightarrow> p \<in> set (visit n dag t) \<Longrightarrow>
     c \<in> set (children dag p) \<Longrightarrow> c \<in> set (visit n dag t)"
proof (induction n arbitrary: t)
  case 0
  then show ?case by simp
next
  case (Suc n)
  from Suc.prems(3) consider "p = t"
    | c' where "c' \<in> set (children dag t)" "p \<in> set (visit n dag c')"
    by auto
  then show ?case
  proof cases
    case 1
    with Suc.prems(1,4) have "t < c" "c < length dag" by (simp_all add: wf_order_def)
    with Suc.prems(2) have "0 < n" by simp
    then have "c \<in> set (visit n dag c)" by (rule visit_self)
    with 1 Suc.prems(4) show ?thesis by auto
  next
    case 2
    from Suc.prems(1) 2(1) have "t < c'" "c' < length dag" by (simp_all add: wf_order_def)
    with Suc.prems(2) have "length dag - c' \<le> n" by simp
    from Suc.IH [OF Suc.prems(1) this 2(2) Suc.prems(4)] have "c \<in> set (visit n dag c')" .
    with 2(1) show ?thesis by auto
  qed
qed

lemma visit_child_first:
  "wf_order dag \<Longrightarrow> length dag - t \<le> n \<Longrightarrow> visit n dag t = xs @ p # ys \<Longrightarrow>
     c \<in> set (children dag p) \<Longrightarrow> c \<in> set xs"
proof (induction n arbitrary: t xs ys)
  case 0
  then show ?case by simp
next
  case (Suc n)
  let ?zs = "concat (map (visit n dag) (rev (children dag t)))"
  from Suc.prems(3) have eq: "?zs @ [t] = xs @ p # ys" by simp
  show ?case
  proof (cases ys rule: rev_cases)
    case Nil
    with eq have "xs = ?zs" "p = t" by auto
    with Suc.prems(1,4) have "t < c" "c < length dag" by (simp_all add: wf_order_def)
    with Suc.prems(2) have "0 < n" by simp
    then have "c \<in> set (visit n dag c)" by (rule visit_self)
    with \<open>xs = ?zs\<close> \<open>p = t\<close> Suc.prems(4) show ?thesis by auto
  next
    case (snoc ys' y)
    with eq have "?zs = xs @ p # ys'" by auto
    from concat_split_elem [OF this] obtain seg xs1 ys1 where
      seg: "seg \<in> set (map (visit n dag) (rev (children dag t)))"
        "seg = xs1 @ p # ys1" "set xs1 \<subseteq> set xs"
      by blast
    from seg(1) obtain c' where c': "c' \<in> set (children dag t)" "seg = visit n dag c'"
      by auto
    from Suc.prems(1) c'(1) have "t < c'" "c' < length dag" by (simp_all add: wf_order_def)
    with Suc.prems(2) have "length dag - c' \<le> n" by simp
    from Suc.IH [OF Suc.prems(1) this _ Suc.prems(4)] seg(2) c'(2) have "c \<in> set xs1"
      by simp
    with seg(3) show ?thesis by auto
  qed
qed

lemma iter_dag_child_first:
  assumes "wf_order dag" "iter_dag dag = xs @ p # ys" "c \<in> set (children dag p)"
  shows "c \<in> set xs"
proof -
  from assms(2) have "concat (map (visit (length dag) dag) (rev (roots dag))) = xs @ p # ys"
    by (simp add: iter_dag_def)
  from concat_split_elem [OF this] obtain seg xs1 ys1 where
    seg: "seg \<in> set (map (visit (length dag) dag) (rev (roots dag)))"
      "seg = xs1 @ p # ys1" "set xs1 \<subseteq> set xs"
    by blast
  from seg(1) obtain r where "seg = visit (length dag) dag r" by auto
  with seg(2) have "visit (length dag) dag r = xs1 @ p # ys1" by simp
  from visit_child_first [OF assms(1) _ this assms(3)] have "c \<in> set xs1" by simp
  with seg(3) show ?thesis by auto
qed

lemma wf_order_keys:
  "wf_order dag \<Longrightarrow> fst ` set dag = {..<length dag}"
proof -
  assume "wf_order dag"
  then have "map fst dag = [0..<length dag]" by (simp add: wf_order_def)
  then have "set (map fst dag) = set [0..<length dag]" by simp
  then show ?thesis by (simp add: lessThan_atLeast0)
qed

lemma wf_order_distinct:
  "wf_order dag \<Longrightarrow> distinct (map fst dag)"
  by (simp add: wf_order_def)

lemma children_member:
  "distinct (map fst dag) \<Longrightarrow> (p, cs) \<in> set dag \<Longrightarrow> children dag p = cs"
  by (simp add: children_def)

lemma children_elem:
  assumes "c \<in> set (children dag p)"
  shows "\<exists>cs. (p, cs) \<in> set dag \<and> c \<in> set cs"
proof (cases "map_of dag p")
  case None
  with assms show ?thesis by (simp add: children_def)
next
  case (Some cs)
  then have "(p, cs) \<in> set dag" by (rule map_of_SomeD)
  moreover from Some assms have "c \<in> set cs" by (simp add: children_def)
  ultimately show ?thesis by blast
qed

lemma edges_children:
  "distinct (map fst dag) \<Longrightarrow> ((p, c) \<in> edges dag) = (c \<in> set (children dag p))"
  by (auto simp: edges_def children_member dest: children_elem)

lemma not_root_has_parent:
  assumes "distinct (map fst dag)" "k \<in> fst ` set dag" "k \<notin> set (roots dag)"
  shows "\<exists>p. k \<in> set (children dag p)"
proof -
  from assms(2,3) have "list_ex (\<lambda>(p, cs). k \<in> set cs) dag"
    by (auto simp: roots_def)
  then obtain p cs where "(p, cs) \<in> set dag" "k \<in> set cs"
    by (auto simp: list_ex_iff)
  with assms(1) have "k \<in> set (children dag p)" by (simp add: children_member)
  then show ?thesis ..
qed

lemma roots_keys:
  "set (roots dag) \<subseteq> fst ` set dag"
  by (auto simp: roots_def)

lemma iter_dag_visits_all:
  assumes wf: "wf_order dag"
  shows "k < length dag \<Longrightarrow> k \<in> set (iter_dag dag)"
proof (induction k rule: less_induct)
  case (less k)
  from wf less.prems have key: "k \<in> fst ` set dag" by (simp add: wf_order_keys)
  show ?case
  proof (cases "k \<in> set (roots dag)")
    case True
    from less.prems have "0 < length dag" by (cases dag) simp_all
    then have "k \<in> set (visit (length dag) dag k)" by (rule visit_self)
    with True show ?thesis by (auto simp: iter_dag_def)
  next
    case False
    from not_root_has_parent [OF wf_order_distinct [OF wf] key False]
    obtain p where p: "k \<in> set (children dag p)" ..
    with wf have "p < k" by (simp add: wf_order_def)
    with less have "p \<in> set (iter_dag dag)" by simp
    then obtain r where r: "r \<in> set (roots dag)" "p \<in> set (visit (length dag) dag r)"
      by (auto simp: iter_dag_def)
    from visit_child_closed [OF wf _ r(2) p] have "k \<in> set (visit (length dag) dag r)"
      by simp
    with r(1) show ?thesis by (auto simp: iter_dag_def)
  qed
qed

lemma visit_elems:
  "x \<in> set (visit n dag t) \<Longrightarrow> x = t \<or> (\<exists>p. x \<in> set (children dag p))"
proof (induction n arbitrary: t)
  case 0
  then show ?case by simp
next
  case (Suc n)
  from Suc.prems consider "x = t"
    | c where "c \<in> set (children dag t)" "x \<in> set (visit n dag c)"
    by auto
  then show ?case
  proof cases
    case 1
    then show ?thesis by simp
  next
    case 2
    from Suc.IH [OF 2(2)] 2(1) show ?thesis by auto
  qed
qed

lemma iter_dag_nodes:
  assumes wf: "wf_order dag"
  shows "set (iter_dag dag) = fst ` set dag"
proof
  show "set (iter_dag dag) \<subseteq> fst ` set dag"
  proof
    fix x assume "x \<in> set (iter_dag dag)"
    then obtain r where r: "r \<in> set (roots dag)" "x \<in> set (visit (length dag) dag r)"
      by (auto simp: iter_dag_def)
    from visit_elems [OF r(2)] show "x \<in> fst ` set dag"
    proof
      assume "x = r"
      with r(1) roots_keys show ?thesis by auto
    next
      assume "\<exists>p. x \<in> set (children dag p)"
      then obtain p where "x \<in> set (children dag p)" ..
      with wf have "x < length dag" by (simp add: wf_order_def)
      with wf show ?thesis by (simp add: wf_order_keys)
    qed
  qed
  show "fst ` set dag \<subseteq> set (iter_dag dag)"
    using wf iter_dag_visits_all by (auto simp: wf_order_keys)
qed

section \<open>The DAG stays well-formed\<close>

lemma children_update:
  "children (AList.update k v dag) p = (if p = k then v else children dag p)"
  by (simp add: children_def update_conv')

lemma wf_shapeI:
  assumes "map fst dag = [0..<length ps]"
    and "\<And>p. distinct (children dag p)"
    and "\<And>p c. c \<in> set (children dag p) \<Longrightarrow> p < c \<and> c < length ps \<and> ps ! c = Some p"
    and "\<And>t p. t < length ps \<Longrightarrow> ps ! t = Some p \<Longrightarrow> t \<in> set (children dag p)"
  shows "wf_shape dag ps"
  unfolding wf_shape_def
proof (intro conjI allI impI)
  show "map fst dag = [0..<length ps]" by (rule assms(1))
  show "distinct (children dag p)" for p by (rule assms(2))
  show "p < c" "c < length ps" "ps ! c = Some p" if "c \<in> set (children dag p)" for p c
    using assms(3) [OF that] by simp_all
  show "t \<in> set (children dag p)" if "t < length ps \<and> ps ! t = Some p" for t p
    using assms(4) [of t p] that by simp
qed

lemma wf_shape_keys: "wf_shape dag ps \<Longrightarrow> map fst dag = [0..<length ps]"
  unfolding wf_shape_def by (elim conjE)

lemma wf_shape_distinct: "wf_shape dag ps \<Longrightarrow> distinct (children dag p)"
  unfolding wf_shape_def by (elim conjE allE)

lemma wf_shape_child:
  assumes "wf_shape dag ps" "c \<in> set (children dag p)"
  shows "p < c \<and> c < length ps \<and> ps ! c = Some p"
proof -
  from assms(1) have
    "\<forall>p c. c \<in> set (children dag p) \<longrightarrow> p < c \<and> c < length ps \<and> ps ! c = Some p"
    unfolding wf_shape_def by (elim conjE)
  with assms(2) show ?thesis by blast
qed

lemma wf_shape_parent:
  assumes "wf_shape dag ps" "t < length ps" "ps ! t = Some p"
  shows "t \<in> set (children dag p)"
proof -
  from assms(1) have
    "\<forall>t p. t < length ps \<and> ps ! t = Some p \<longrightarrow> t \<in> set (children dag p)"
    unfolding wf_shape_def by (elim conjE)
  with assms(2,3) show ?thesis by blast
qed

lemma wf_shape_fresh:
  assumes "wf_shape dag ps"
  shows "length ps \<notin> fst ` set dag" "children dag (length ps) = []"
proof -
  from assms have keys: "map fst dag = [0..<length ps]" by (rule wf_shape_keys)
  have "fst ` set dag = set (map fst dag)" by simp
  also have "\<dots> = {0..<length ps}" unfolding keys by simp
  finally show "length ps \<notin> fst ` set dag" by simp
  then show "children dag (length ps) = []" by (rule children_not_key)
qed

lemma wf_shape_add_root:
  assumes wf: "wf_shape dag ps"
  shows "wf_shape (AList.update (length ps) [] dag) (ps @ [None])"
proof (rule wf_shapeI)
  from wf_shape_fresh(1) [OF wf] wf_shape_keys [OF wf]
  show "map fst (AList.update (length ps) [] dag) = [0..<length (ps @ [None])]"
    by (simp add: update_keys)
next
  fix p show "distinct (children (AList.update (length ps) [] dag) p)"
    using wf_shape_distinct [OF wf] by (simp add: children_update)
next
  fix p c assume "c \<in> set (children (AList.update (length ps) [] dag) p)"
  then have "p \<noteq> length ps" and c: "c \<in> set (children dag p)"
    by (auto simp: children_update split: if_splits)
  from wf_shape_child [OF wf c]
  show "p < c \<and> c < length (ps @ [None]) \<and> (ps @ [None]) ! c = Some p"
    by (simp add: nth_append)
next
  fix t p assume t: "t < length (ps @ [None])" and "(ps @ [None]) ! t = Some p"
  then have "t < length ps" "ps ! t = Some p"
    by (auto simp: nth_append split: if_splits)
  from wf_shape_parent [OF wf this] have c: "t \<in> set (children dag p)" .
  have "p \<noteq> length ps"
  proof
    assume "p = length ps"
    with c wf_shape_fresh(2) [OF wf] show False by simp
  qed
  with c show "t \<in> set (children (AList.update (length ps) [] dag) p)"
    by (simp add: children_update)
qed

lemma wf_shape_not_child:
  assumes "wf_shape dag ps"
  shows "length ps \<notin> set (children dag p)"
proof
  assume "length ps \<in> set (children dag p)"
  from wf_shape_child [OF assms this] show False by simp
qed

lemma wf_shape_add_child:
  assumes wf: "wf_shape dag ps" and q: "q < length ps"
  shows "wf_shape (AList.update (length ps) []
           (AList.update q (children dag q @ [length ps]) dag)) (ps @ [Some q])"
    (is "wf_shape ?dag ?ps")
proof (rule wf_shapeI)
  from wf_shape_keys [OF wf] q have "q \<in> set (map fst dag)" by simp
  with wf_shape_fresh(1) [OF wf] wf_shape_keys [OF wf]
  show "map fst ?dag = [0..<length ?ps]"
    by (simp add: update_keys)
next
  fix p
  show "distinct (children ?dag p)"
    using wf_shape_distinct [OF wf] wf_shape_not_child [OF wf, of q]
    by (simp add: children_update)
next
  fix p c assume a: "c \<in> set (children ?dag p)"
  have pn: "p \<noteq> length ps"
  proof
    assume "p = length ps"
    with a show False by (simp add: children_update)
  qed
  show "p < c \<and> c < length ?ps \<and> ?ps ! c = Some p"
  proof (cases "p = q")
    case True
    with a pn have "c \<in> set (children dag q) \<or> c = length ps"
      by (auto simp: children_update)
    then show ?thesis
    proof
      assume "c \<in> set (children dag q)"
      from wf_shape_child [OF wf this] True show ?thesis by (simp add: nth_append)
    next
      assume "c = length ps"
      with True q show ?thesis by simp
    qed
  next
    case False
    with a pn have "c \<in> set (children dag p)"
      by (simp add: children_update)
    from wf_shape_child [OF wf this] show ?thesis by (simp add: nth_append)
  qed
next
  fix t p assume t: "t < length ?ps" and e: "?ps ! t = Some p"
  show "t \<in> set (children ?dag p)"
  proof (cases "t = length ps")
    case True
    with e have "p = q" by simp
    with True q show ?thesis by (simp add: children_update)
  next
    case False
    with t have tl: "t < length ps" by simp
    with e have "ps ! t = Some p" by (simp add: nth_append)
    from wf_shape_parent [OF wf tl this] have c: "t \<in> set (children dag p)" .
    have "p \<noteq> length ps"
    proof
      assume "p = length ps"
      with c wf_shape_fresh(2) [OF wf] show False by simp
    qed
    with c show ?thesis by (auto simp: children_update)
  qed
qed

lemma map_update_same:
  "f y = f (xs ! t) \<Longrightarrow> map f (xs[t := y]) = map f xs"
  by (cases "t < length xs") (simp_all add: map_update list_update_same_conv list_update_beyond)

lemma nth_update_if:
  "x < length xs \<Longrightarrow> (xs[t := y]) ! x = (if x = t then y else xs ! x)"
  by (cases "x = t") simp_all

lemma set_done_frame:
  "service_task_dag (set_done m t) = service_task_dag m"
  "parents (set_done m t) = parents m"
  "scope_cancelled (set_done m t) x = scope_cancelled m x"
  "is_done (set_done m t) x = (is_done m x \<or> (x = t \<and> t < length (tasks m)))"
  "started (set_done m t) = started m" "cancelled (set_done m t) = cancelled m"
  "run_lock (set_done m t) = run_lock m" "task_nursery (set_done m t) = task_nursery m"
  "system_nursery (set_done m t) = system_nursery m"
  "length (tasks (set_done m t)) = length (tasks m)"
  "has_trio_task (tasks (set_done m t)) x = has_trio_task (tasks m) x"
  by (auto simp: set_done_def parents_def scope_cancelled_def is_done_def has_trio_task_def
      map_update_same nth_update_if split: if_splits)

lemma set_cancel_scope_frame:
  "service_task_dag (set_cancel_scope m t) = service_task_dag m"
  "parents (set_cancel_scope m t) = parents m"
  "scope_cancelled (set_cancel_scope m t) x =
     (scope_cancelled m x \<or> (x = t \<and> t < length (tasks m)))"
  "is_done (set_cancel_scope m t) x = is_done m x"
  "started (set_cancel_scope m t) = started m" "cancelled (set_cancel_scope m t) = cancelled m"
  "run_lock (set_cancel_scope m t) = run_lock m"
  "task_nursery (set_cancel_scope m t) = task_nursery m"
  "system_nursery (set_cancel_scope m t) = system_nursery m"
  "length (tasks (set_cancel_scope m t)) = length (tasks m)"
  by (auto simp: set_cancel_scope_def parents_def scope_cancelled_def is_done_def
      map_update_same nth_update_if split: if_splits)

lemma set_trio_task_frame:
  assumes "set_trio_task m t r = Inr m'"
  shows "service_task_dag m' = service_task_dag m"
    "parents m' = parents m"
    "scope_cancelled m' x = scope_cancelled m x"
    "is_done m' x = is_done m x"
    "started m' = started m" "cancelled m' = cancelled m"
    "run_lock m' = run_lock m" "task_nursery m' = task_nursery m"
    "system_nursery m' = system_nursery m"
    "length (tasks m') = length (tasks m)"
proof -
  from assms have m': "m' = m\<lparr>tasks := (tasks m)[t := (tasks m ! t)\<lparr>trio_task := Some r\<rparr>]\<rparr>"
    by (simp add: set_trio_task_def split: if_splits)
  show "service_task_dag m' = service_task_dag m"
    "parents m' = parents m"
    "scope_cancelled m' x = scope_cancelled m x"
    "is_done m' x = is_done m x"
    "started m' = started m" "cancelled m' = cancelled m"
    "run_lock m' = run_lock m" "task_nursery m' = task_nursery m"
    "system_nursery m' = system_nursery m"
    "length (tasks m') = length (tasks m)"
    unfolding m'
    by (auto simp: parents_def scope_cancelled_def is_done_def map_update_same nth_update_if
        split: if_splits)
qed

lemma cancel_Inr:
  assumes "cancel m = Inr m'"
  shows "\<exists>c. m' = m\<lparr>cancelled := c\<rparr> \<and> (cancelled m \<longrightarrow> c)"
proof -
  from assms have "m' = m\<lparr>cancelled := cancelled m'\<rparr> \<and> (cancelled m \<longrightarrow> cancelled m')"
    by (cases "is_running m") (auto simp: cancel_def split: if_splits)
  then show ?thesis by blast
qed

text \<open>The two exit segments change the buffer, the cancelled event and one done event.\<close>

lemma exit_shapeI:
  "x = set_done (m\<lparr>errors := es, cancelled := c\<rparr>) t \<Longrightarrow> (cancelled m \<longrightarrow> c) \<Longrightarrow>
     \<exists>es c. x = set_done (m\<lparr>errors := es, cancelled := c\<rparr>) t \<and> (cancelled m \<longrightarrow> c)"
  by blast

lemma exit_shape_plain:
  "\<exists>es c. set_done m t = set_done (m\<lparr>errors := es, cancelled := c\<rparr>) t \<and> (cancelled m \<longrightarrow> c)"
  by (rule exit_shapeI [where es = "errors m" and c = "cancelled m"]) simp_all

lemma exit_shape_cancel:
  "\<exists>es c. set_done (case cancel (m\<lparr>errors := buf\<rparr>) of Inl le \<Rightarrow> m\<lparr>errors := buf\<rparr>
                     | Inr m'' \<Rightarrow> m'') t =
      set_done (m\<lparr>errors := es, cancelled := c\<rparr>) t \<and> (cancelled m \<longrightarrow> c)"
proof (cases "cancel (m\<lparr>errors := buf\<rparr>)")
  case (Inl le)
  show ?thesis
    by (rule exit_shapeI [where es = buf and c = "cancelled m"]) (simp_all add: Inl)
next
  case (Inr m'')
  from cancel_Inr [OF this] obtain c where
    c: "m'' = m\<lparr>errors := buf\<rparr>\<lparr>cancelled := c\<rparr>" "cancelled (m\<lparr>errors := buf\<rparr>) \<longrightarrow> c"
    by blast
  show ?thesis
    by (rule exit_shapeI [where es = buf and c = c]) (use c in \<open>simp_all add: Inr\<close>)
qed

lemma run_and_manage_task_exit_shape:
  "\<exists>es c. fst (run_and_manage_task_exit m d n t out) =
      set_done (m\<lparr>errors := es, cancelled := c\<rparr>) t \<and> (cancelled m \<longrightarrow> c)"
proof -
  have r: "fst (run_and_manage_task_exit m d n t (Raised e)) =
      set_done (case cancel (m\<lparr>errors := errors m @ [e]\<rparr>) of
                  Inl le \<Rightarrow> m\<lparr>errors := errors m @ [e]\<rparr> | Inr m'' \<Rightarrow> m'') t" for e
    by (cases "cancel (m\<lparr>errors := errors m @ [e]\<rparr>)")
       (simp_all add: run_and_manage_task_exit_def)
  have "m\<lparr>errors := errors m\<rparr> = m" by simp
  then have dd: "fst (run_and_manage_task_exit m True n t Returned) =
      set_done (case cancel (m\<lparr>errors := errors m\<rparr>) of
                  Inl le \<Rightarrow> m\<lparr>errors := errors m\<rparr> | Inr m'' \<Rightarrow> m'') t"
    by (cases "cancel m") (simp_all add: run_and_manage_task_exit_def)
  show ?thesis
  proof (cases out)
    case Returned
    show ?thesis
    proof (cases d)
      case True
      show ?thesis
        using exit_shape_cancel [where m = m and buf = "errors m" and t = t]
        by (simp add: Returned True dd)
    next
      case False
      with Returned exit_shape_plain [where m = m and t = t] show ?thesis
        by (simp add: run_and_manage_task_exit_def)
    qed
  next
    case (Raised e)
    show ?thesis
      using exit_shape_cancel [where m = m and buf = "errors m @ [e]" and t = t]
      by (simp add: Raised r)
  next
    case Absorbed
    with exit_shape_plain [where m = m and t = t] show ?thesis by (simp add: run_and_manage_task_exit_def)
  next
    case (Escaped b)
    with exit_shape_plain [where m = m and t = t] show ?thesis by (simp add: run_and_manage_task_exit_def)
  qed
qed

lemma handle_run_exit_shape:
  "\<exists>es c. fst (handle_run_exit m t out) =
      set_done (m\<lparr>errors := es, cancelled := c\<rparr>) t \<and> (cancelled m \<longrightarrow> c)"
proof -
  have r: "fst (handle_run_exit m t (Raised e)) =
      set_done (case cancel (m\<lparr>errors := errors m @ [e]\<rparr>) of
                  Inl le \<Rightarrow> m\<lparr>errors := errors m @ [e]\<rparr> | Inr m'' \<Rightarrow> m'') t" for e
    by (cases "cancel (m\<lparr>errors := errors m @ [e]\<rparr>)")
       (simp_all add: handle_run_exit_def)
  show ?thesis
  proof (cases out)
    case Returned
    with exit_shape_plain [where m = m and t = t] show ?thesis by (simp add: handle_run_exit_def)
  next
    case (Raised e)
    show ?thesis
      using exit_shape_cancel [where m = m and buf = "errors m @ [e]" and t = t]
      by (simp add: Raised r)
  next
    case Absorbed
    with exit_shape_plain [where m = m and t = t] show ?thesis by (simp add: handle_run_exit_def)
  next
    case (Escaped b)
    with exit_shape_plain [where m = m and t = t] show ?thesis by (simp add: handle_run_exit_def)
  qed
qed

section \<open>Events preserve the invariants\<close>

lemma env_step_same:
  assumes "handler s' = handler s" "snapshot s' = snapshot s" "run_node s' = run_node s"
    "tasks (mgr s') = tasks (mgr s)"
    "service_task_dag (mgr s') = service_task_dag (mgr s)"
    "started (mgr s) \<longrightarrow> started (mgr s')" "cancelled (mgr s) \<longrightarrow> cancelled (mgr s')"
    "(run_lock (mgr s) \<longrightarrow> started (mgr s)) \<longrightarrow> (run_lock (mgr s') \<longrightarrow> started (mgr s'))"
  shows "env_step s s'"
  unfolding env_step_def using assms
  by (simp add: is_done_def scope_cancelled_def parents_def)

lemma env_step_refl: "env_step s s"
  by (rule env_step_same) simp_all

lemma fire_Run:
  assumes "fire s Run = Some s'"
  shows "env_step s s'"
proof (cases "run_enter (mgr s)")
  case (Inl e)
  with assms have "s' = s" by simp
  then show ?thesis by (simp add: env_step_refl)
next
  case (Inr m)
  with assms have s': "s' = s\<lparr>mgr := m\<rparr>" by simp
  from Inr have m: "m = (mgr s)\<lparr>run_lock := True,
               system_nursery := [HandleCancelled],
               system_nursery_cancelled := False,
               task_nursery := [HandleRun],
               task_nursery_cancelled := False,
               started := True\<rparr>"
    by (simp add: run_enter_def split: if_splits)
  show ?thesis
    by (rule env_step_same) (simp_all add: s' m)
qed


lemma append_task_views:
  assumes "tasks m' = tasks m @ [new]" "\<not> done_set new" "\<not> cancel_scope new"
  shows "is_done m' x = is_done m x" "scope_cancelled m' x = scope_cancelled m x"
    "parents m' = parents m @ [parent new]"
proof -
  show "is_done m' x = is_done m x"
    using assms by (cases "x < length (tasks m)") (auto simp: is_done_def nth_append)
  show "scope_cancelled m' x = scope_cancelled m x"
    using assms by (cases "x < length (tasks m)") (auto simp: scope_cancelled_def nth_append)
  show "parents m' = parents m @ [parent new]"
    using assms by (simp add: parents_def)
qed

lemma flags_views:
  "is_done (m\<lparr>errors := es, cancelled := c\<rparr>) x = is_done m x"
  "scope_cancelled (m\<lparr>errors := es, cancelled := c\<rparr>) x = scope_cancelled m x"
  "parents (m\<lparr>errors := es, cancelled := c\<rparr>) = parents m"
  by (simp_all add: is_done_def scope_cancelled_def parents_def)

lemma env_step_done:
  assumes "s' = s\<lparr>mgr := set_done (mgr s\<lparr>errors := es, cancelled := c\<rparr>) t\<rparr>"
    "cancelled (mgr s) \<longrightarrow> c"
  shows "env_step s s'"
  unfolding env_step_def using assms
  by (simp add: set_done_frame flags_views)

lemma fire_Cancel:
  assumes "fire s Cancel = Some s'"
  shows "env_step s s'"
proof (cases "cancel (mgr s)")
  case (Inl e)
  with assms have "s' = s" by simp
  then show ?thesis by (simp add: env_step_refl)
next
  case (Inr m)
  with assms have s': "s' = s\<lparr>mgr := m\<rparr>" by simp
  from cancel_Inr [OF Inr] obtain c where "m = (mgr s)\<lparr>cancelled := c\<rparr>" "cancelled (mgr s) \<longrightarrow> c"
    by blast
  then show ?thesis
    by (intro env_step_same) (simp_all add: s')
qed

lemma fire_HandleRunExit:
  assumes "fire s (HandleRunExit out) = Some s'"
  shows "env_step s s'"
proof -
  from assms obtain t where "s' = s\<lparr>mgr := fst (handle_run_exit (mgr s) t out)\<rparr>"
    by (auto split: option.splits if_splits)
  with handle_run_exit_shape [of "mgr s" t out] show ?thesis
    by (auto intro: env_step_done)
qed

lemma fire_TaskExit:
  assumes "fire s (TaskExit t out) = Some s'"
  shows "env_step s s'"
proof -
  from assms obtain d n where "s' = s\<lparr>mgr := fst (run_and_manage_task_exit (mgr s) d n t out)\<rparr>"
    by (auto split: option.splits if_splits spawn.splits)
  with run_and_manage_task_exit_shape [of "mgr s" d n t out] show ?thesis
    by (auto intro: env_step_done)
qed

lemma fire_TaskStart:
  assumes "fire s (TaskStart t cur) = Some s'"
  shows "env_step s s'"
proof -
  from assms obtain m where m: "set_trio_task (mgr s) t cur = Inr m" "s' = s\<lparr>mgr := m\<rparr>"
    by (auto simp: run_and_manage_task_enter_def split: sum.splits if_splits)
  show ?thesis
    unfolding env_step_def using set_trio_task_frame [OF m(1)]
    by (simp add: m(2))
qed

lemma fire_HandleRunStart:
  assumes "fire s (HandleRunStart cur) = Some s'"
  shows "env_step s s'"
proof -
  define new where "new = \<lparr> name = ''run'', daemon = False, done_set = False,
                  cancel_scope = False, parent = None, trio_task = Some cur \<rparr>"
  define m' where "m' = (mgr s)\<lparr>tasks := tasks (mgr s) @ [new],
            service_task_dag :=
              AList.update (length (tasks (mgr s))) [] (service_task_dag (mgr s))\<rparr>"
  from assms have s': "s' = s\<lparr>mgr := m', run_node := Some (length (tasks (mgr s)))\<rparr>"
    by (simp add: handle_run_enter_def Let_def m'_def new_def split: if_splits)
  have t: "tasks m' = tasks (mgr s) @ [new]" by (simp add: m'_def)
  have n: "\<not> done_set new" "\<not> cancel_scope new" "parent new = None" by (simp_all add: new_def)
  show ?thesis
    unfolding env_step_def
    using append_task_views [OF t n(1,2)] n(3)
    by (simp add: s') (simp add: m'_def parents_def)
qed

lemma run_task_env:
  assumes "run_task (mgr s) cur f d n = Inr m'"
  shows "env_step s (s\<lparr>mgr := m'\<rparr>)"
proof (cases "is_running (mgr s) \<and> \<not> is_cancelled (mgr s)")
  case False
  with assms have "m' = mgr s" by (auto simp: run_task_def split: if_splits)
  then show ?thesis by (simp add: env_step_refl)
next
  case True
  show ?thesis
  proof (cases "get_parent_task (mgr s) cur")
    case None
    define new where "new = \<lparr> name = n, daemon = d, done_set = False, cancel_scope = False,
                  parent = None, trio_task = None \<rparr>"
    from run_task_root [of "mgr s" cur f d n] True None assms
    have m': "m' = (mgr s)\<lparr>tasks := tasks (mgr s) @ [new],
          service_task_dag := AList.update (length (tasks (mgr s))) [] (service_task_dag (mgr s)),
          task_nursery := task_nursery (mgr s) @
            [RunAndManageTask f d n (length (tasks (mgr s)))]\<rparr>"
      by (simp add: new_def)
    have t: "tasks m' = tasks (mgr s) @ [new]" by (simp add: m')
    have nw: "\<not> done_set new" "\<not> cancel_scope new" "parent new = None"
      by (simp_all add: new_def)
    show ?thesis
      unfolding env_step_def
      using append_task_views [OF t nw(1,2)] nw(3)
      by simp (simp add: m' parents_def)
  next
    case (Some q)
    define new where "new = \<lparr> name = n, daemon = d, done_set = False, cancel_scope = False,
                  parent = Some q, trio_task = None \<rparr>"
    from get_parent_task_map_of [OF Some] obtain cs where
      cs: "map_of (service_task_dag (mgr s)) q = Some cs" ..
    then have ch: "children (service_task_dag (mgr s)) q = cs" by (simp add: children_def)
    from get_parent_task_key [OF Some] have q: "q < length (tasks (mgr s))" by simp
    from run_task_child [of "mgr s" cur q cs f d n] True Some cs assms
    have m': "m' = (mgr s)\<lparr>tasks := tasks (mgr s) @ [new],
          service_task_dag := AList.update (length (tasks (mgr s))) []
             (AList.update q (cs @ [length (tasks (mgr s))]) (service_task_dag (mgr s))),
          task_nursery := task_nursery (mgr s) @
            [RunAndManageTask f d n (length (tasks (mgr s)))]\<rparr>"
      by (simp add: new_def)
    have t: "tasks m' = tasks (mgr s) @ [new]" by (simp add: m')
    have nw: "\<not> done_set new" "\<not> cancel_scope new" "parent new = Some q"
      by (simp_all add: new_def)
    from True have nc: "\<not> cancelled (mgr s)" by (simp add: is_cancelled_def)
    have "\<exists>q' < length (parents (mgr s)). \<not> cancelled (mgr s)
             \<and> service_task_dag m' =
                 AList.update (length (parents (mgr s))) []
                   (AList.update q'
                      (children (service_task_dag (mgr s)) q' @ [length (parents (mgr s))])
                      (service_task_dag (mgr s)))
             \<and> parents m' = parents (mgr s) @ [Some q']"
      using q nc append_task_views(3) [OF t nw(1,2)] nw(3) ch
      by (intro exI [of _ q]) (simp add: m' parents_def)
    then show ?thesis
      unfolding env_step_def
      using append_task_views(1,2) [OF t nw(1,2)]
      by simp (simp add: m')
  qed
qed

lemma fire_RunTask:
  assumes "fire s (RunTask cur f d n) = Some s'"
  shows "env_step s s'"
proof (cases "run_task (mgr s) cur f d n")
  case (Inl e)
  with assms have "s' = s" by simp
  then show ?thesis by (simp add: env_step_refl)
next
  case (Inr m)
  with assms have "s' = s\<lparr>mgr := m\<rparr>" by simp
  with run_task_env [OF Inr] show ?thesis by simp
qed

lemma fire_RunChildService:
  assumes "fire s (RunChildService cur svc d n) = Some s'"
  shows "env_step s s'"
proof (cases "run_task (mgr s) cur (ManagerRun svc) d n")
  case (Inl e)
  with assms have "s' = s" by (simp add: run_child_service_def)
  then show ?thesis by (simp add: env_step_refl)
next
  case (Inr m)
  with assms have "s' = s\<lparr>mgr := m\<rparr>" by (simp add: run_child_service_def)
  with run_task_env [OF Inr] show ?thesis by simp
qed

lemma env_stepD:
  assumes "env_step s s'"
  shows "handler s' = handler s" "snapshot s' = snapshot s"
    "started (mgr s) \<Longrightarrow> started (mgr s')"
    "cancelled (mgr s) \<Longrightarrow> cancelled (mgr s')"
    "run_lock (mgr s) \<longrightarrow> started (mgr s) \<Longrightarrow> run_lock (mgr s') \<longrightarrow> started (mgr s')"
    "is_done (mgr s) x \<Longrightarrow> is_done (mgr s') x"
    "scope_cancelled (mgr s') x = scope_cancelled (mgr s) x"
  using assms unfolding env_step_def by blast+

lemma env_step_shape:
  assumes "env_step s s'"
  obtains
    (same) "service_task_dag (mgr s') = service_task_dag (mgr s)"
      "parents (mgr s') = parents (mgr s)" "run_node s' = run_node s"
  | (root) "service_task_dag (mgr s') =
               AList.update (length (parents (mgr s))) [] (service_task_dag (mgr s))"
      "parents (mgr s') = parents (mgr s) @ [None]"
      "run_node s' = run_node s \<or> run_node s' = Some (length (parents (mgr s)))"
  | (child) q where "q < length (parents (mgr s))" "\<not> cancelled (mgr s)"
      "service_task_dag (mgr s') =
                 AList.update (length (parents (mgr s))) []
                   (AList.update q
                      (children (service_task_dag (mgr s)) q @ [length (parents (mgr s))])
                      (service_task_dag (mgr s)))"
      "parents (mgr s') = parents (mgr s) @ [Some q]"
      "run_node s' = run_node s"
  using assms unfolding env_step_def by blast

lemma env_step_wf_dag:
  assumes "env_step s s'" "wf_dag (mgr s)"
  shows "wf_dag (mgr s')"
  using assms(1)
proof (cases rule: env_step_shape)
  case same
  with assms(2) show ?thesis by (simp add: wf_dag_def)
next
  case root
  with wf_shape_add_root [of "service_task_dag (mgr s)" "parents (mgr s)"] assms(2)
  show ?thesis by (simp add: wf_dag_def)
next
  case (child q)
  with wf_shape_add_child [of "service_task_dag (mgr s)" "parents (mgr s)" q] assms(2)
  show ?thesis by (simp add: wf_dag_def)
qed

lemma env_step_length:
  assumes "env_step s s'"
  shows "length (parents (mgr s)) \<le> length (parents (mgr s'))"
  using assms by (cases rule: env_step_shape) simp_all

lemma env_step_handler_inv:
  assumes e: "env_step s s'" and h: "handler_inv s"
  shows "handler_inv s'"
proof (cases "handler s")
  case WaitCancelled
  with h have "\<forall>x. \<not> scope_cancelled (mgr s) x" by (simp add: handler_inv_def)
  with WaitCancelled show ?thesis
    by (simp add: handler_inv_def env_stepD(1,2,7) [OF e])
next
  case (CancelNext ts)
  with h obtain pre where pre: "iter_dag (snapshot s) = pre @ ts"
      "\<forall>x \<in> set pre. is_done (mgr s) x"
      "\<forall>x. scope_cancelled (mgr s) x = (x \<in> set pre)"
    by (auto simp: handler_inv_def)
  from pre(2) have "\<forall>x \<in> set pre. is_done (mgr s') x"
    using env_stepD(6) [OF e] by blast
  with pre(1,3) have "iter_dag (snapshot s') = pre @ ts
      \<and> (\<forall>x \<in> set pre. is_done (mgr s') x)
      \<and> (\<forall>x. scope_cancelled (mgr s') x = (x \<in> set pre))"
    by (simp add: env_stepD(2,7) [OF e])
  then show ?thesis
    unfolding handler_inv_def env_stepD(1) [OF e] CancelNext by (simp only: handler_pc.case) blast
next
  case (AwaitDone t ts)
  with h obtain pre where pre: "iter_dag (snapshot s) = pre @ t # ts"
      "\<forall>x \<in> set pre. is_done (mgr s) x"
      "\<forall>x. scope_cancelled (mgr s) x = (x \<in> set pre \<or> x = t)"
    by (auto simp: handler_inv_def)
  from pre(2) have "\<forall>x \<in> set pre. is_done (mgr s') x"
    using env_stepD(6) [OF e] by blast
  with pre(1,3) have "iter_dag (snapshot s') = pre @ t # ts
      \<and> (\<forall>x \<in> set pre. is_done (mgr s') x)
      \<and> (\<forall>x. scope_cancelled (mgr s') x = (x \<in> set pre \<or> x = t))"
    by (simp add: env_stepD(2,7) [OF e])
  then show ?thesis
    unfolding handler_inv_def env_stepD(1) [OF e] AwaitDone by (simp only: handler_pc.case) blast
next
  case HandlerExited
  with h obtain pre post where pre: "iter_dag (snapshot s) = pre @ post"
      "\<forall>x \<in> set (butlast pre). is_done (mgr s) x"
      "\<forall>x. scope_cancelled (mgr s) x = (x \<in> set pre)"
    by (auto simp: handler_inv_def)
  from pre(2) have "\<forall>x \<in> set (butlast pre). is_done (mgr s') x"
    using env_stepD(6) [OF e] by blast
  with pre(1,3) have "iter_dag (snapshot s') = pre @ post
      \<and> (\<forall>x \<in> set (butlast pre). is_done (mgr s') x)
      \<and> (\<forall>x. scope_cancelled (mgr s') x = (x \<in> set pre))"
    by (simp add: env_stepD(2,7) [OF e])
  then show ?thesis
    unfolding handler_inv_def env_stepD(1) [OF e] HandlerExited
    by (simp only: handler_pc.case) blast
qed


lemma sys_invD:
  assumes "sys_inv s"
  shows "wf_dag (mgr s)" "wf_forest (snapshot s)"
    "length (snapshot s) \<le> length (parents (mgr s))"
    "handler_inv s" "run_lock (mgr s) \<longrightarrow> started (mgr s)"
    "run_node s = Some r \<Longrightarrow> r < length (parents (mgr s)) \<and> parents (mgr s) ! r = None"
    "handler s = WaitCancelled \<Longrightarrow> snapshot s = []"
    "snapshot s \<noteq> [] \<Longrightarrow> cancelled (mgr s)"
    "snapshot s \<noteq> [] \<Longrightarrow> children (service_task_dag (mgr s)) p = children (snapshot s) p"
  using assms unfolding sys_inv_def by blast+

lemma sys_invI:
  assumes "wf_dag (mgr s)" "wf_forest (snapshot s)"
    "length (snapshot s) \<le> length (parents (mgr s))"
    "handler_inv s" "run_lock (mgr s) \<longrightarrow> started (mgr s)"
    "\<And>r. run_node s = Some r \<Longrightarrow> r < length (parents (mgr s)) \<and> parents (mgr s) ! r = None"
    "handler s = WaitCancelled \<Longrightarrow> snapshot s = []"
    "snapshot s \<noteq> [] \<Longrightarrow> cancelled (mgr s)"
    "\<And>p. snapshot s \<noteq> [] \<Longrightarrow>
       children (service_task_dag (mgr s)) p = children (snapshot s) p"
  shows "sys_inv s"
  unfolding sys_inv_def using assms by blast

lemma env_step_run_node:
  assumes e: "env_step s s'"
    and r: "\<And>r. run_node s = Some r \<Longrightarrow> r < length (parents (mgr s)) \<and> parents (mgr s) ! r = None"
    and r': "run_node s' = Some r"
  shows "r < length (parents (mgr s')) \<and> parents (mgr s') ! r = None"
  using e
proof (cases rule: env_step_shape)
  case same
  with r [of r] r' show ?thesis by simp
next
  case root
  from root(3) show ?thesis
  proof
    assume "run_node s' = run_node s"
    with r [of r] r' root(2) show ?thesis by (simp add: nth_append)
  next
    assume "run_node s' = Some (length (parents (mgr s)))"
    with r' have "r = length (parents (mgr s))" by simp
    with root(2) show ?thesis by simp
  qed
next
  case (child q)
  with r [of r] r' show ?thesis by (simp add: nth_append)
qed

lemma env_step_frozen:
  assumes e: "env_step s s'" and wf: "wf_dag (mgr s)"
    and c: "snapshot s \<noteq> [] \<Longrightarrow> cancelled (mgr s)"
    and f: "\<And>p. snapshot s \<noteq> [] \<Longrightarrow>
       children (service_task_dag (mgr s)) p = children (snapshot s) p"
    and ne: "snapshot s' \<noteq> []"
  shows "children (service_task_dag (mgr s')) p = children (snapshot s') p"
proof -
  from ne have ne0: "snapshot s \<noteq> []" by (simp add: env_stepD(2) [OF e])
  from e show ?thesis
  proof (cases rule: env_step_shape)
    case same
    with f [OF ne0, of p] show ?thesis by (simp add: env_stepD(2) [OF e])
  next
    case root
    from wf have "children (service_task_dag (mgr s)) (length (parents (mgr s))) = []"
      unfolding wf_dag_def by (rule wf_shape_fresh(2))
    with root f [OF ne0, of p] show ?thesis
      by (cases "p = length (parents (mgr s))")
         (simp_all add: env_stepD(2) [OF e] children_update)
  next
    case (child q)
    with c [OF ne0] show ?thesis by simp
  qed
qed

lemma env_step_sys_inv:
  assumes e: "env_step s s'" and i: "sys_inv s"
  shows "sys_inv s'"
proof (rule sys_invI)
  show "wf_dag (mgr s')" using e sys_invD(1) [OF i] by (rule env_step_wf_dag)
  show "wf_forest (snapshot s')" using sys_invD(2) [OF i] by (simp add: env_stepD(2) [OF e])
  show "length (snapshot s') \<le> length (parents (mgr s'))"
    using sys_invD(3) [OF i] env_step_length [OF e] by (simp add: env_stepD(2) [OF e])
  show "handler_inv s'" using e sys_invD(4) [OF i] by (rule env_step_handler_inv)
  show "run_lock (mgr s') \<longrightarrow> started (mgr s')"
    using sys_invD(5) [OF i] by (rule env_stepD(5) [OF e])
  show "r < length (parents (mgr s')) \<and> parents (mgr s') ! r = None"
    if "run_node s' = Some r" for r
    using e sys_invD(6) [OF i] that by (rule env_step_run_node)
  show "snapshot s' = []" if "handler s' = WaitCancelled"
    using that sys_invD(7) [OF i] by (simp add: env_stepD(1,2) [OF e])
  show "cancelled (mgr s')" if "snapshot s' \<noteq> []"
    using that sys_invD(8) [OF i] env_stepD(4) [OF e] by (simp add: env_stepD(2) [OF e])
  show "children (service_task_dag (mgr s')) p = children (snapshot s') p"
    if "snapshot s' \<noteq> []" for p
    using e sys_invD(1) [OF i] sys_invD(8) [OF i] sys_invD(9) [OF i] that
    by (rule env_step_frozen)
qed

lemma run_exit_frame:
  "tasks (fst (run_exit m ex)) = tasks m"
  "service_task_dag (fst (run_exit m ex)) = service_task_dag m"
  "started (fst (run_exit m ex)) = started m"
  "cancelled (fst (run_exit m ex)) = cancelled m"
  "\<not> run_lock (fst (run_exit m ex))"
  by (auto simp: run_exit_def Let_def split: nursery_exit.splits raised.splits)

lemma run_exit_views:
  "parents (fst (run_exit m ex)) = parents m"
  "is_done (fst (run_exit m ex)) x = is_done m x"
  "scope_cancelled (fst (run_exit m ex)) x = scope_cancelled m x"
  by (simp_all add: parents_def is_done_def scope_cancelled_def run_exit_frame)

lemma handler_inv_exit:
  assumes h: "handler_inv s"
    and s': "handler s' = HandlerExited" "snapshot s' = snapshot s"
      "\<And>x. is_done (mgr s') x = is_done (mgr s) x"
      "\<And>x. scope_cancelled (mgr s') x = scope_cancelled (mgr s) x"
  shows "handler_inv s'"
proof -
  have "\<exists>pre post. iter_dag (snapshot s) = pre @ post
             \<and> (\<forall>x \<in> set (butlast pre). is_done (mgr s) x)
             \<and> (\<forall>x. scope_cancelled (mgr s) x = (x \<in> set pre))"
  proof (cases "handler s")
    case WaitCancelled
    with h have "iter_dag (snapshot s) = [] @ iter_dag (snapshot s)
        \<and> (\<forall>x \<in> set (butlast []). is_done (mgr s) x)
        \<and> (\<forall>x. scope_cancelled (mgr s) x = (x \<in> set []))"
      by (simp add: handler_inv_def)
    then show ?thesis by blast
  next
    case (CancelNext ts)
    with h obtain pre where pre: "iter_dag (snapshot s) = pre @ ts"
      "\<forall>x \<in> set pre. is_done (mgr s) x"
      "\<forall>x. scope_cancelled (mgr s) x = (x \<in> set pre)"
      by (auto simp: handler_inv_def)
    from pre(2) have "\<forall>x \<in> set (butlast pre). is_done (mgr s) x"
      by (auto dest: in_set_butlastD)
    with pre(1,3) show ?thesis by blast
  next
    case (AwaitDone t ts)
    with h obtain pre where pre: "iter_dag (snapshot s) = pre @ t # ts"
      "\<forall>x \<in> set pre. is_done (mgr s) x"
      "\<forall>x. scope_cancelled (mgr s) x = (x \<in> set pre \<or> x = t)"
      by (auto simp: handler_inv_def)
    then have "iter_dag (snapshot s) = (pre @ [t]) @ ts
        \<and> (\<forall>x \<in> set (butlast (pre @ [t])). is_done (mgr s) x)
        \<and> (\<forall>x. scope_cancelled (mgr s) x = (x \<in> set (pre @ [t])))"
      by auto
    then show ?thesis by blast
  next
    case HandlerExited
    with h show ?thesis by (simp add: handler_inv_def)
  qed
  then show ?thesis
    unfolding handler_inv_def s' by (simp only: handler_pc.case)
qed

lemma fire_RunExit:
  assumes f: "fire s (RunExit ex) = Some s'" and i: "sys_inv s"
  shows "sys_inv s'"
proof -
  from f have s': "s' = s\<lparr>mgr := fst (run_exit (mgr s) ex), handler := HandlerExited\<rparr>"
    by (simp split: if_splits)
  show ?thesis
  proof (rule sys_invI)
    show "wf_dag (mgr s')"
      using sys_invD(1) [OF i] by (simp add: s' wf_dag_def run_exit_frame run_exit_views)
    show "wf_forest (snapshot s')" using sys_invD(2) [OF i] by (simp add: s')
    show "length (snapshot s') \<le> length (parents (mgr s'))"
      using sys_invD(3) [OF i] by (simp add: s' run_exit_views)
    show "handler_inv s'"
      using sys_invD(4) [OF i] by (rule handler_inv_exit) (simp_all add: s' run_exit_views)
    show "run_lock (mgr s') \<longrightarrow> started (mgr s')"
      by (simp add: s' run_exit_frame)
    show "r < length (parents (mgr s')) \<and> parents (mgr s') ! r = None"
      if "run_node s' = Some r" for r
      using sys_invD(6) [OF i, of r] that by (simp add: s' run_exit_views)
    show "snapshot s' = []" if "handler s' = WaitCancelled"
      using that by (simp add: s')
    show "cancelled (mgr s')" if "snapshot s' \<noteq> []"
      using that sys_invD(8) [OF i] by (simp add: s' run_exit_frame)
    show "children (service_task_dag (mgr s')) p = children (snapshot s') p"
      if "snapshot s' \<noteq> []" for p
      using that sys_invD(9) [OF i, of p] by (simp add: s' run_exit_frame)
  qed
qed

lemma wf_shape_forest:
  assumes "wf_shape dag ps"
  shows "wf_forest dag" "length dag = length ps"
proof -
  from wf_shape_keys [OF assms] have "length (map fst dag) = length [0..<length ps]" by simp
  then show len: "length dag = length ps" by simp
  have "wf_order dag"
    unfolding wf_order_def
  proof (intro conjI allI impI)
    show "map fst dag = [0..<length dag]" using wf_shape_keys [OF assms] len by simp
    show "p < c" "c < length dag" if "c \<in> set (children dag p)" for p c
      using wf_shape_child [OF assms that] len by simp_all
  qed
  moreover have "p = q" if "c \<in> set (children dag p) \<and> c \<in> set (children dag q)" for p q c
  proof -
    from that wf_shape_child [OF assms, of c p] wf_shape_child [OF assms, of c q]
    have "ps ! c = Some p" "ps ! c = Some q" by simp_all
    then show ?thesis by simp
  qed
  ultimately show "wf_forest dag"
    unfolding wf_forest_def using wf_shape_distinct [OF assms] by blast
qed

lemma wf_forestD:
  assumes "wf_forest dag"
  shows "wf_order dag" "distinct (children dag p)"
    "c \<in> set (children dag p) \<Longrightarrow> c \<in> set (children dag q) \<Longrightarrow> p = q"
  using assms unfolding wf_forest_def by blast+

lemma wf_forest_Nil: "wf_forest []"
  by (simp add: wf_forest_def wf_order_def children_def)

lemma length_parents: "length (parents m) = length (tasks m)"
  by (simp add: parents_def)

lemma iter_dag_bound:
  assumes "wf_forest dag" "x \<in> set (iter_dag dag)"
  shows "x < length dag"
proof -
  from wf_forestD(1) [OF assms(1)] have "wf_order dag" .
  from iter_dag_nodes [OF this] wf_order_keys [OF this] assms(2) show ?thesis by simp
qed

lemma handler_inv_CancelNextI:
  assumes "handler s = CancelNext ts" "iter_dag (snapshot s) = pre @ ts"
    "\<forall>x \<in> set pre. is_done (mgr s) x" "\<forall>x. scope_cancelled (mgr s) x = (x \<in> set pre)"
  shows "handler_inv s"
  unfolding handler_inv_def assms(1) using assms(2-4) by (simp only: handler_pc.case) blast

lemma handler_inv_AwaitDoneI:
  assumes "handler s = AwaitDone t ts" "iter_dag (snapshot s) = pre @ t # ts"
    "\<forall>x \<in> set pre. is_done (mgr s) x"
    "\<forall>x. scope_cancelled (mgr s) x = (x \<in> set pre \<or> x = t)"
  shows "handler_inv s"
  unfolding handler_inv_def assms(1) using assms(2-4) by (simp only: handler_pc.case) blast

lemma fire_HandlerStep:
  assumes f: "fire s HandlerStep = Some s'" and i: "sys_inv s"
  shows "sys_inv s'"
proof (cases "handler s")
  case WaitCancelled
  with f have c: "cancelled (mgr s)"
    and s': "s' = s\<lparr>handler := CancelNext (iter_dag (service_task_dag (mgr s))),
                   snapshot := service_task_dag (mgr s)\<rparr>"
    by (auto split: if_splits)
  from sys_invD(1) [OF i] have wf: "wf_shape (service_task_dag (mgr s)) (parents (mgr s))"
    by (simp add: wf_dag_def)
  from sys_invD(4) [OF i] WaitCancelled have ns: "\<forall>x. \<not> scope_cancelled (mgr s) x"
    by (simp add: handler_inv_def)
  show ?thesis
  proof (rule sys_invI)
    show "wf_dag (mgr s')" using sys_invD(1) [OF i] by (simp add: s')
    show "wf_forest (snapshot s')" using wf_shape_forest(1) [OF wf] by (simp add: s')
    show "length (snapshot s') \<le> length (parents (mgr s'))"
      using wf_shape_forest(2) [OF wf] by (simp add: s')
    show "handler_inv s'"
      using ns by (simp add: s' handler_inv_def)
    show "run_lock (mgr s') \<longrightarrow> started (mgr s')" using sys_invD(5) [OF i] by (simp add: s')
    show "r < length (parents (mgr s')) \<and> parents (mgr s') ! r = None"
      if "run_node s' = Some r" for r
      using sys_invD(6) [OF i, of r] that by (simp add: s')
    show "snapshot s' = []" if "handler s' = WaitCancelled"
      using that by (simp add: s')
    show "cancelled (mgr s')" if "snapshot s' \<noteq> []" using c by (simp add: s')
    show "children (service_task_dag (mgr s')) p = children (snapshot s') p"
      if "snapshot s' \<noteq> []" for p
      by (simp add: s')
  qed
next
  case (CancelNext ts)
  from sys_invD(4) [OF i] CancelNext obtain pre where
    pre: "iter_dag (snapshot s) = pre @ ts" "\<forall>x \<in> set pre. is_done (mgr s) x"
      "\<forall>x. scope_cancelled (mgr s) x = (x \<in> set pre)"
    by (auto simp: handler_inv_def)
  show ?thesis
  proof (cases ts)
    case Nil
    with f CancelNext have s': "s' = s\<lparr>mgr := (mgr s)\<lparr>task_nursery_cancelled := True\<rparr>,
        handler := HandlerExited\<rparr>"
      by (auto split: if_splits)
    have v: "parents (mgr s') = parents (mgr s)" "\<And>x. is_done (mgr s') x = is_done (mgr s) x"
      "\<And>x. scope_cancelled (mgr s') x = scope_cancelled (mgr s) x"
      by (simp_all add: s' parents_def is_done_def scope_cancelled_def)
    show ?thesis
    proof (rule sys_invI)
      show "wf_dag (mgr s')" using sys_invD(1) [OF i] by (simp add: wf_dag_def v) (simp add: s')
      show "wf_forest (snapshot s')" using sys_invD(2) [OF i] by (simp add: s')
      show "length (snapshot s') \<le> length (parents (mgr s'))"
        using sys_invD(3) [OF i] by (simp add: v) (simp add: s')
      show "handler_inv s'"
        using sys_invD(4) [OF i] by (rule handler_inv_exit) (simp_all add: v, simp_all add: s')
      show "run_lock (mgr s') \<longrightarrow> started (mgr s')" using sys_invD(5) [OF i] by (simp add: s')
      show "r < length (parents (mgr s')) \<and> parents (mgr s') ! r = None"
        if "run_node s' = Some r" for r
        using sys_invD(6) [OF i, of r] that by (simp add: v) (simp add: s')
      show "snapshot s' = []" if "handler s' = WaitCancelled"
        using that by (simp add: s')
      show "cancelled (mgr s')" if "snapshot s' \<noteq> []"
        using that sys_invD(8) [OF i] by (simp add: s')
      show "children (service_task_dag (mgr s')) p = children (snapshot s') p"
        if "snapshot s' \<noteq> []" for p
        using that sys_invD(9) [OF i, of p] by (simp add: s')
    qed
  next
    case (Cons t ts')
    with f CancelNext have s': "s' = s\<lparr>mgr := set_cancel_scope (mgr s) t,
        handler := AwaitDone t ts'\<rparr>"
      by (auto split: if_splits)
    from pre(1) Cons have "t \<in> set (iter_dag (snapshot s))" by simp
    from iter_dag_bound [OF sys_invD(2) [OF i] this] sys_invD(3) [OF i]
    have t: "t < length (tasks (mgr s))" by (simp add: length_parents)
    show ?thesis
    proof (rule sys_invI)
      show "wf_dag (mgr s')"
        using sys_invD(1) [OF i] by (simp add: wf_dag_def s' set_cancel_scope_frame)
      show "wf_forest (snapshot s')" using sys_invD(2) [OF i] by (simp add: s')
      show "length (snapshot s') \<le> length (parents (mgr s'))"
        using sys_invD(3) [OF i] by (simp add: s' set_cancel_scope_frame)
      show "handler_inv s'"
        using pre Cons t
        by (intro handler_inv_AwaitDoneI [where pre = pre and t = t and ts = ts'])
           (simp_all add: s' set_cancel_scope_frame)
      show "run_lock (mgr s') \<longrightarrow> started (mgr s')"
        using sys_invD(5) [OF i] by (simp add: s' set_cancel_scope_frame)
      show "r < length (parents (mgr s')) \<and> parents (mgr s') ! r = None"
        if "run_node s' = Some r" for r
        using sys_invD(6) [OF i, of r] that by (simp add: s' set_cancel_scope_frame)
      show "snapshot s' = []" if "handler s' = WaitCancelled"
        using that by (simp add: s')
      show "cancelled (mgr s')" if "snapshot s' \<noteq> []"
        using that sys_invD(8) [OF i] by (simp add: s' set_cancel_scope_frame)
      show "children (service_task_dag (mgr s')) p = children (snapshot s') p"
        if "snapshot s' \<noteq> []" for p
        using that sys_invD(9) [OF i, of p] by (simp add: s' set_cancel_scope_frame)
    qed
  qed
next
  case (AwaitDone t ts)
  with f have d: "is_done (mgr s) t" and s': "s' = s\<lparr>handler := CancelNext ts\<rparr>"
    by (auto split: if_splits)
  from sys_invD(4) [OF i] AwaitDone obtain pre where
    pre: "iter_dag (snapshot s) = pre @ t # ts" "\<forall>x \<in> set pre. is_done (mgr s) x"
      "\<forall>x. scope_cancelled (mgr s) x = (x \<in> set pre \<or> x = t)"
    by (auto simp: handler_inv_def)
  show ?thesis
  proof (rule sys_invI)
    show "wf_dag (mgr s')" using sys_invD(1) [OF i] by (simp add: s')
    show "wf_forest (snapshot s')" using sys_invD(2) [OF i] by (simp add: s')
    show "length (snapshot s') \<le> length (parents (mgr s'))"
      using sys_invD(3) [OF i] by (simp add: s')
    show "handler_inv s'"
      using pre d
      by (intro handler_inv_CancelNextI [where pre = "pre @ [t]" and ts = ts])
         (auto simp: s')
    show "run_lock (mgr s') \<longrightarrow> started (mgr s')" using sys_invD(5) [OF i] by (simp add: s')
    show "r < length (parents (mgr s')) \<and> parents (mgr s') ! r = None"
      if "run_node s' = Some r" for r
      using sys_invD(6) [OF i, of r] that by (simp add: s')
    show "snapshot s' = []" if "handler s' = WaitCancelled"
      using that by (simp add: s')
    show "cancelled (mgr s')" if "snapshot s' \<noteq> []"
      using that sys_invD(8) [OF i] by (simp add: s')
    show "children (service_task_dag (mgr s')) p = children (snapshot s') p"
      if "snapshot s' \<noteq> []" for p
      using that sys_invD(9) [OF i, of p] by (simp add: s')
  qed
next
  case HandlerExited
  with f show ?thesis by (simp split: if_splits)
qed

lemma fire_sys_inv:
  assumes "fire s e = Some s'" "sys_inv s"
  shows "sys_inv s'"
proof (cases e)
  case Run
  with assms(1) have "env_step s s'" by (intro fire_Run) simp
  then show ?thesis using assms(2) by (rule env_step_sys_inv)
next
  case (RunExit ex)
  with assms(1) show ?thesis by (intro fire_RunExit [OF _ assms(2)]) simp
next
  case (HandleRunStart cur)
  with assms(1) have "env_step s s'" by (intro fire_HandleRunStart) simp
  then show ?thesis using assms(2) by (rule env_step_sys_inv)
next
  case (HandleRunExit out)
  with assms(1) have "env_step s s'" by (intro fire_HandleRunExit) simp
  then show ?thesis using assms(2) by (rule env_step_sys_inv)
next
  case Cancel
  with assms(1) have "env_step s s'" by (intro fire_Cancel) simp
  then show ?thesis using assms(2) by (rule env_step_sys_inv)
next
  case (RunTask cur f d n)
  with assms(1) have "env_step s s'" by (intro fire_RunTask) simp
  then show ?thesis using assms(2) by (rule env_step_sys_inv)
next
  case (RunChildService cur svc d n)
  with assms(1) have "env_step s s'" by (intro fire_RunChildService) simp
  then show ?thesis using assms(2) by (rule env_step_sys_inv)
next
  case (TaskStart t cur)
  with assms(1) have "env_step s s'" by (intro fire_TaskStart) simp
  then show ?thesis using assms(2) by (rule env_step_sys_inv)
next
  case (TaskExit t out)
  with assms(1) have "env_step s s'" by (intro fire_TaskExit) simp
  then show ?thesis using assms(2) by (rule env_step_sys_inv)
next
  case HandlerStep
  with assms(1) show ?thesis by (intro fire_HandlerStep [OF _ assms(2)]) simp
qed

lemma init_sys_inv: "sys_inv (init_sys svc)"
proof (rule sys_invI)
  show "wf_dag (mgr (init_sys svc))"
    by (simp add: init_sys_def init_manager_def wf_dag_def wf_shape_def parents_def children_def)
  show "wf_forest (snapshot (init_sys svc))" by (simp add: init_sys_def wf_forest_Nil)
  show "handler_inv (init_sys svc)"
    by (simp add: init_sys_def init_manager_def handler_inv_def scope_cancelled_def)
qed (simp_all add: init_sys_def init_manager_def)


lemma exec_sys_inv:
  "exec s evs = Some s' \<Longrightarrow> sys_inv s \<Longrightarrow> sys_inv s'"
proof (induction evs arbitrary: s)
  case Nil
  then show ?case by simp
next
  case (Cons e evs)
  from Cons.prems(1) obtain s1 where s1: "fire s e = Some s1" "exec s1 evs = Some s'"
    by (auto split: option.splits)
  from fire_sys_inv [OF s1(1) Cons.prems(2)] have "sys_inv s1" .
  from Cons.IH [OF s1(2) this] show ?case .
qed

lemma reachable_sys_inv:
  "exec (init_sys svc) evs = Some s \<Longrightarrow> sys_inv s"
  using exec_sys_inv init_sys_inv by blast

section \<open>The iteration order has every node once\<close>

lemma distinct_concat_map:
  assumes "distinct cs" "\<And>c. c \<in> set cs \<Longrightarrow> distinct (f c)"
    "\<And>c c'. c \<in> set cs \<Longrightarrow> c' \<in> set cs \<Longrightarrow> c \<noteq> c' \<Longrightarrow> set (f c) \<inter> set (f c') = {}"
  shows "distinct (concat (map f cs))"
  using assms
proof (induction cs)
  case Nil
  then show ?case by simp
next
  case (Cons c cs)
  have "distinct (concat (map f cs))"
    by (rule Cons.IH) (use Cons.prems in auto)
  moreover have "distinct (f c)" using Cons.prems(2) by simp
  moreover have "set (f c) \<inter> set (f c') = {}" if "c' \<in> set cs" for c'
    using Cons.prems(1) Cons.prems(3) [of c c'] that by auto
  ultimately show ?case by auto
qed

lemma edge_child:
  "wf_order dag \<Longrightarrow> ((p, c) \<in> edges dag) = (c \<in> set (children dag p))"
  by (rule edges_children) (rule wf_order_distinct)

lemma visit_reach:
  assumes wf: "wf_order dag"
  shows "x \<in> set (visit n dag t) \<Longrightarrow> (t, x) \<in> (edges dag)\<^sup>*"
proof (induction n arbitrary: t)
  case 0
  then show ?case by simp
next
  case (Suc n)
  from Suc.prems consider "x = t"
    | c where "c \<in> set (children dag t)" "x \<in> set (visit n dag c)"
    by auto
  then show ?case
  proof cases
    case 1
    then show ?thesis by simp
  next
    case 2
    from 2(1) wf have "(t, c) \<in> edges dag" by (simp add: edge_child)
    moreover from Suc.IH [OF 2(2)] have "(c, x) \<in> (edges dag)\<^sup>*" .
    ultimately show ?thesis by (rule converse_rtrancl_into_rtrancl)
  qed
qed

lemma reach_ge:
  assumes wf: "wf_order dag"
  shows "(a, b) \<in> (edges dag)\<^sup>* \<Longrightarrow> a \<le> b"
proof (induction rule: rtrancl_induct)
  case base
  then show ?case by simp
next
  case (step y z)
  from step(2) wf have "z \<in> set (children dag y)" by (simp add: edge_child)
  with wf have "y < z" by (simp add: wf_order_def)
  with step(3) show ?case by simp
qed

lemma reach_comparable:
  assumes wf: "wf_forest dag"
  shows "(a, x) \<in> (edges dag)\<^sup>* \<Longrightarrow> (b, x) \<in> (edges dag)\<^sup>* \<Longrightarrow>
    (a, b) \<in> (edges dag)\<^sup>* \<or> (b, a) \<in> (edges dag)\<^sup>*"
proof (induction rule: rtrancl_induct)
  case base
  then show ?case by simp
next
  case (step y z)
  from step.prems show ?case
  proof (cases rule: rtranclE)
    case base
    with step(1,2) have "(a, b) \<in> (edges dag)\<^sup>*" by auto
    then show ?thesis ..
  next
    case (step y')
    from \<open>(y', z) \<in> edges dag\<close> \<open>(y, z) \<in> edges dag\<close> wf_forestD(1) [OF wf]
    have "z \<in> set (children dag y')" "z \<in> set (children dag y)"
      by (simp_all add: edge_child)
    from wf_forestD(3) [OF wf this] have "y' = y" .
    with \<open>(b, y') \<in> (edges dag)\<^sup>*\<close> step.IH show ?thesis by simp
  qed
qed

lemma reach_parent:
  assumes wf: "wf_forest dag" and r: "(a, c) \<in> (edges dag)\<^sup>*" and ne: "a \<noteq> c"
    and e: "c \<in> set (children dag t)"
  shows "(a, t) \<in> (edges dag)\<^sup>*"
  using r
proof (cases rule: rtranclE)
  case base
  with ne show ?thesis by simp
next
  case (step y)
  from step(2) wf_forestD(1) [OF wf] have "c \<in> set (children dag y)" by (simp add: edge_child)
  from wf_forestD(3) [OF wf this e] step(1) show ?thesis by simp
qed

lemma siblings_disjoint:
  assumes wf: "wf_forest dag"
    and c: "c1 \<in> set (children dag t)" "c2 \<in> set (children dag t)" "c1 \<noteq> c2"
  shows "set (visit n dag c1) \<inter> set (visit n dag c2) = {}"
proof (rule ccontr)
  assume "set (visit n dag c1) \<inter> set (visit n dag c2) \<noteq> {}"
  then obtain x where "x \<in> set (visit n dag c1)" "x \<in> set (visit n dag c2)" by auto
  with visit_reach [OF wf_forestD(1) [OF wf]]
  have "(c1, x) \<in> (edges dag)\<^sup>*" "(c2, x) \<in> (edges dag)\<^sup>*" by simp_all
  from reach_comparable [OF wf this]
  show False
  proof
    assume "(c1, c2) \<in> (edges dag)\<^sup>*"
    from reach_parent [OF wf this c(3,2)] have "(c1, t) \<in> (edges dag)\<^sup>*" .
    from reach_ge [OF wf_forestD(1) [OF wf] this] have "c1 \<le> t" .
    moreover from wf_forestD(1) [OF wf] c(1) have "t < c1" by (simp add: wf_order_def)
    ultimately show False by simp
  next
    assume "(c2, c1) \<in> (edges dag)\<^sup>*"
    from reach_parent [OF wf this c(3) [symmetric] c(1)] have "(c2, t) \<in> (edges dag)\<^sup>*" .
    from reach_ge [OF wf_forestD(1) [OF wf] this] have "c2 \<le> t" .
    moreover from wf_forestD(1) [OF wf] c(2) have "t < c2" by (simp add: wf_order_def)
    ultimately show False by simp
  qed
qed

lemma distinct_visit:
  assumes wf: "wf_forest dag"
  shows "distinct (visit n dag t)"
proof (induction n arbitrary: t)
  case 0
  then show ?case by simp
next
  case (Suc n)
  have "distinct (concat (map (visit n dag) (rev (children dag t))))"
  proof (rule distinct_concat_map)
    show "distinct (rev (children dag t))" using wf_forestD(2) [OF wf] by simp
    show "distinct (visit n dag c)" for c by (rule Suc.IH)
    show "set (visit n dag c) \<inter> set (visit n dag c') = {}"
      if "c \<in> set (rev (children dag t))" "c' \<in> set (rev (children dag t))" "c \<noteq> c'" for c c'
      using that by (intro siblings_disjoint [OF wf, of c t c']) simp_all
  qed
  moreover have "t \<notin> set (concat (map (visit n dag) (rev (children dag t))))"
  proof
    assume "t \<in> set (concat (map (visit n dag) (rev (children dag t))))"
    then obtain c where c: "c \<in> set (children dag t)" "t \<in> set (visit n dag c)" by auto
    from visit_ge [OF wf_forestD(1) [OF wf] c(2)] have "c \<le> t" .
    moreover from wf_forestD(1) [OF wf] c(1) have "t < c" by (simp add: wf_order_def)
    ultimately show False by simp
  qed
  ultimately show ?case by simp
qed

lemma root_no_parent:
  assumes wf: "wf_order dag" and r: "r \<in> set (roots dag)"
  shows "r \<notin> set (children dag p)"
proof
  assume "r \<in> set (children dag p)"
  from children_elem [OF this] obtain cs where "(p, cs) \<in> set dag" "r \<in> set cs" by blast
  then have "list_ex (\<lambda>(p, cs). r \<in> set cs) dag" by (auto simp: list_ex_iff)
  with r show False by (simp add: roots_def)
qed

lemma roots_disjoint:
  assumes wf: "wf_forest dag"
    and r: "r1 \<in> set (roots dag)" "r2 \<in> set (roots dag)" "r1 \<noteq> r2"
  shows "set (visit n dag r1) \<inter> set (visit n dag r2) = {}"
proof (rule ccontr)
  assume "set (visit n dag r1) \<inter> set (visit n dag r2) \<noteq> {}"
  then obtain x where "x \<in> set (visit n dag r1)" "x \<in> set (visit n dag r2)" by auto
  with visit_reach [OF wf_forestD(1) [OF wf]]
  have "(r1, x) \<in> (edges dag)\<^sup>*" "(r2, x) \<in> (edges dag)\<^sup>*" by simp_all
  have no: False if "(a, b) \<in> (edges dag)\<^sup>*" "a \<noteq> b" "b \<in> set (roots dag)" for a b
    using that(1)
  proof (cases rule: rtranclE)
    case base
    with that(2) show ?thesis by simp
  next
    case (step y)
    from step(2) wf_forestD(1) [OF wf] have "b \<in> set (children dag y)" by (simp add: edge_child)
    with root_no_parent [OF wf_forestD(1) [OF wf] that(3)] show ?thesis by simp
  qed
  from reach_comparable [OF wf \<open>(r1, x) \<in> (edges dag)\<^sup>*\<close> \<open>(r2, x) \<in> (edges dag)\<^sup>*\<close>]
  show False
  proof
    assume "(r1, r2) \<in> (edges dag)\<^sup>*"
    from no [OF this r(3,2)] show False .
  next
    assume "(r2, r1) \<in> (edges dag)\<^sup>*"
    from no [OF this r(3) [symmetric] r(1)] show False .
  qed
qed

lemma distinct_iter_dag:
  assumes wf: "wf_forest dag"
  shows "distinct (iter_dag dag)"
  unfolding iter_dag_def
proof (rule distinct_concat_map)
  from wf_order_distinct [OF wf_forestD(1) [OF wf]]
  show "distinct (rev (roots dag))" by (simp add: roots_def)
  show "distinct (visit (length dag) dag c)" for c by (rule distinct_visit [OF wf])
  show "set (visit (length dag) dag c) \<inter> set (visit (length dag) dag c') = {}"
    if "c \<in> set (rev (roots dag))" "c' \<in> set (rev (roots dag))" "c \<noteq> c'" for c c'
    using that by (intro roots_disjoint [OF wf]) simp_all
qed

section \<open>Calling run again\<close>








section \<open>Roots of the DAG\<close>

lemma wf_dag_keys:
  assumes "wf_dag m"
  shows "map fst (service_task_dag m) = [0..<length (tasks m)]"
    "fst ` set (service_task_dag m) = {..<length (tasks m)}"
    "distinct (map fst (service_task_dag m))"
proof -
  from assms have wf: "wf_shape (service_task_dag m) (parents m)" by (simp add: wf_dag_def)
  from wf_shape_keys [OF wf] show k: "map fst (service_task_dag m) = [0..<length (tasks m)]"
    by (simp add: length_parents)
  have "fst ` set (service_task_dag m) = set (map fst (service_task_dag m))" by simp
  also have "\<dots> = {..<length (tasks m)}" unfolding k by (simp add: lessThan_atLeast0)
  finally show "fst ` set (service_task_dag m) = {..<length (tasks m)}" .
  show "distinct (map fst (service_task_dag m))" unfolding k by simp
qed

lemma wf_dag_parent_edge:
  assumes "wf_dag m" "t < length (tasks m)"
  shows "(parent (tasks m ! t) = Some p) = ((p, t) \<in> edges (service_task_dag m))"
proof -
  from assms(1) have wf: "wf_shape (service_task_dag m) (parents m)" by (simp add: wf_dag_def)
  from assms(2) have pt: "parents m ! t = parent (tasks m ! t)" by (simp add: parents_def)
  have e: "((p, t) \<in> edges (service_task_dag m)) = (t \<in> set (children (service_task_dag m) p))"
    by (rule edges_children) (rule wf_dag_keys(3) [OF assms(1)])
  show ?thesis
  proof
    assume "parent (tasks m ! t) = Some p"
    with wf_shape_parent [OF wf, of t p] assms(2) pt e show "(p, t) \<in> edges (service_task_dag m)"
      by (simp add: length_parents)
  next
    assume "(p, t) \<in> edges (service_task_dag m)"
    with e wf_shape_child [OF wf, of t p] pt show "parent (tasks m ! t) = Some p" by simp
  qed
qed

lemma wf_dag_parentless_roots:
  assumes "wf_dag m"
  shows "parentless m = roots (service_task_dag m)"
  unfolding parentless_def roots_def
proof (rule filter_cong [OF refl])
  fix t assume "t \<in> set (map fst (service_task_dag m))"
  with wf_dag_keys(2) [OF assms] have t: "t < length (tasks m)" by auto
  have "(\<exists>p. (p, t) \<in> edges (service_task_dag m)) =
      list_ex (\<lambda>(p, cs). t \<in> set cs) (service_task_dag m)"
    by (auto simp: edges_def list_ex_iff)
  moreover have "(\<exists>p. (p, t) \<in> edges (service_task_dag m)) = (parent (tasks m ! t) \<noteq> None)"
    using wf_dag_parent_edge [OF assms t] by auto
  ultimately show "(t < length (tasks m) \<and> parent (tasks m ! t) = None) =
      (\<not> list_ex (\<lambda>(p, cs). t \<in> set cs) (service_task_dag m))"
    using t by (cases "parent (tasks m ! t)") auto
qed

lemma wf_dag_get_parent_None:
  assumes "wf_dag m"
  shows "(get_parent_task m r = None) =
     (\<forall>k < length (tasks m). trio_task (tasks m ! k) \<noteq> Some r)"
  unfolding get_parent_task_def find_parent_None wf_dag_keys(1) [OF assms]
  by auto

text \<open>
  C9, as the code has it. In every reachable state: every task object is a key of the DAG;
  the nodes whose parent is \<open>None\<close> are exactly the roots of the DAG (the nodes in
  nobody's child list); the node of the service body, once \<open>_handle_run\<close> has started,
  is one of them (there may be others, or none before it has started); a node has parent
  \<open>p\<close> exactly when it is in the child list of \<open>p\<close>, and \<open>p\<close> was made before it.
  Parent inference returns \<open>None\<close> exactly when no node has the given runtime task as
  its runtime handle (a node whose handle is unset matches nothing), and otherwise a node
  that has it.
\<close>

theorem dag_roots:
  assumes "exec (init_sys svc) evs = Some s"
  shows "map fst (service_task_dag (mgr s)) = [0..<length (tasks (mgr s))]
    \<and> parentless (mgr s) = roots (service_task_dag (mgr s))
    \<and> (\<forall>r. run_node s = Some r \<longrightarrow> r \<in> set (parentless (mgr s)))
    \<and> (\<forall>t p. t < length (tasks (mgr s)) \<longrightarrow>
          (parent (tasks (mgr s) ! t) = Some p) = ((p, t) \<in> edges (service_task_dag (mgr s))))
    \<and> (\<forall>p t. (p, t) \<in> edges (service_task_dag (mgr s)) \<longrightarrow> p < t \<and> t < length (tasks (mgr s)))
    \<and> (\<forall>r. (get_parent_task (mgr s) r = None) =
          (\<forall>k < length (tasks (mgr s)). trio_task (tasks (mgr s) ! k) \<noteq> Some r))
    \<and> (\<forall>r p. get_parent_task (mgr s) r = Some p \<longrightarrow>
          p < length (tasks (mgr s)) \<and> trio_task (tasks (mgr s) ! p) = Some r)"
proof -
  from reachable_sys_inv [OF assms] have i: "sys_inv s" .
  from sys_invD(1) [OF i] have wf: "wf_dag (mgr s)" .
  then have ws: "wf_shape (service_task_dag (mgr s)) (parents (mgr s))" by (simp add: wf_dag_def)
  have 1: "map fst (service_task_dag (mgr s)) = [0..<length (tasks (mgr s))]"
    by (rule wf_dag_keys(1) [OF wf])
  have 2: "parentless (mgr s) = roots (service_task_dag (mgr s))"
    by (rule wf_dag_parentless_roots [OF wf])
  have 3: "r \<in> set (parentless (mgr s))" if "run_node s = Some r" for r
  proof -
    from sys_invD(6) [OF i that] have "r < length (tasks (mgr s))" "parents (mgr s) ! r = None"
      by (simp_all add: length_parents)
    then show ?thesis by (simp add: parentless_def 1 parents_def)
  qed
  have 4: "(parent (tasks (mgr s) ! t) = Some p) = ((p, t) \<in> edges (service_task_dag (mgr s)))"
    if "t < length (tasks (mgr s))" for t p
    by (rule wf_dag_parent_edge [OF wf that])
  have 5: "p < t \<and> t < length (tasks (mgr s))"
    if "(p, t) \<in> edges (service_task_dag (mgr s))" for p t
  proof -
    from that have "t \<in> set (children (service_task_dag (mgr s)) p)"
      by (simp add: edges_children [OF wf_dag_keys(3) [OF wf]])
    from wf_shape_child [OF ws this] show ?thesis by (simp add: length_parents)
  qed
  have 6: "(get_parent_task (mgr s) r = None) =
          (\<forall>k < length (tasks (mgr s)). trio_task (tasks (mgr s) ! k) \<noteq> Some r)" for r
    by (rule wf_dag_get_parent_None [OF wf])
  have 7: "p < length (tasks (mgr s)) \<and> trio_task (tasks (mgr s) ! p) = Some r"
    if "get_parent_task (mgr s) r = Some p" for r p
    using get_parent_task_key [OF that] by simp
  from 1 2 3 4 5 6 7 show ?thesis by blast
qed


lemmas eval_defs =
  init_sys_def init_manager_def run_enter_def is_started_def is_running_def is_stopping_def
  is_finished_def is_cancelled_def handle_run_enter_def handle_run_exit_def may_end_def
  is_done_def set_done_def nursery_drained_def run_exit_def did_error_def run_task_def
  get_parent_task_def has_trio_task_def run_and_manage_task_enter_def set_trio_task_def
  run_and_manage_task_exit_def cancel_def set_cancel_scope_def iter_dag_def roots_def
  children_def Let_def

lemma exec_spawn_from_outside:
  "exec (init_sys 0) spawn_from_outside =
     Some \<lparr>mgr = \<lparr>service = 0, started = True, cancelled = False, stopping = False,
              finished = False, run_lock = True, errors = [],
              service_task_dag = [(0, []), (1, [])],
              tasks = [\<lparr>name = ''run'', daemon = False, done_set = False,
                        cancel_scope = False, parent = None, trio_task = Some 1\<rparr>,
                       \<lparr>name = ''outside'', daemon = False, done_set = False,
                        cancel_scope = False, parent = None, trio_task = None\<rparr>],
              system_nursery = [HandleCancelled],
              task_nursery = [HandleRun, RunAndManageTask (UserFn 0) False ''outside'' 1],
              system_nursery_cancelled = False, task_nursery_cancelled = False\<rparr>,
           handler = WaitCancelled, snapshot = [], run_node = Some 0\<rparr>"
  by (simp add: spawn_from_outside_def eval_defs)

lemma exec_parent_returns_first:
  "exec (init_sys 0) parent_returns_first =
     Some \<lparr>mgr = \<lparr>service = 0, started = True, cancelled = True, stopping = False,
              finished = False, run_lock = True, errors = [],
              service_task_dag = [(0, [1]), (1, [])],
              tasks = [\<lparr>name = ''run'', daemon = False, done_set = True,
                        cancel_scope = False, parent = None, trio_task = Some 1\<rparr>,
                       \<lparr>name = ''child'', daemon = False, done_set = False,
                        cancel_scope = False, parent = Some 0, trio_task = Some 2\<rparr>],
              system_nursery = [HandleCancelled],
              task_nursery = [HandleRun, RunAndManageTask (UserFn 0) False ''child'' 1],
              system_nursery_cancelled = False, task_nursery_cancelled = False\<rparr>,
           handler = CancelNext [1, 0], snapshot = [(0, [1]), (1, [])],
           run_node = Some 0\<rparr>"
  by (simp add: parent_returns_first_def eval_defs)

text \<open>
  A task scheduled from outside every managed task is a second node without parent,
  beside the node of the service body.
\<close>

theorem two_parentless_roots:
  "exec (init_sys 0) spawn_from_outside \<noteq> None
   \<and> run_node (the (exec (init_sys 0) spawn_from_outside)) = Some 0
   \<and> parentless (mgr (the (exec (init_sys 0) spawn_from_outside))) = [0, 1]"
  by (simp add: exec_spawn_from_outside parentless_def)

theorem dag_roots_witness:
  "exec (init_sys 0) parent_returns_first \<noteq> None
   \<and> parentless (mgr (the (exec (init_sys 0) parent_returns_first))) = [0]
   \<and> roots (service_task_dag (mgr (the (exec (init_sys 0) parent_returns_first)))) = [0]
   \<and> run_node (the (exec (init_sys 0) parent_returns_first)) = Some 0
   \<and> parent (tasks (mgr (the (exec (init_sys 0) parent_returns_first))) ! 1) = Some 0
   \<and> (0, 1) \<in> edges (service_task_dag (mgr (the (exec (init_sys 0) parent_returns_first))))
   \<and> get_parent_task (mgr (the (exec (init_sys 0) parent_returns_first))) 2 = Some 1
   \<and> get_parent_task (mgr (the (exec (init_sys 0) parent_returns_first))) 9 = None"
proof -
  have a: "exec (init_sys 0) parent_returns_first =
      Some (the (exec (init_sys 0) parent_returns_first))"
    by (simp add: exec_parent_returns_first)
  from dag_roots [OF a] show ?thesis
    by (simp add: exec_parent_returns_first parentless_def roots_def get_parent_task_def
        has_trio_task_def edges_def)
qed

section \<open>Cancellation order\<close>

lemma handler_inv_prefix:
  assumes h: "handler_inv s"
  shows "\<exists>pre post. iter_dag (snapshot s) = pre @ post
             \<and> (\<forall>x \<in> set (butlast pre). is_done (mgr s) x)
             \<and> (\<forall>x. scope_cancelled (mgr s) x = (x \<in> set pre))"
proof (cases "handler s")
  case WaitCancelled
  with h have "iter_dag (snapshot s) = [] @ iter_dag (snapshot s)
      \<and> (\<forall>x \<in> set (butlast []). is_done (mgr s) x)
      \<and> (\<forall>x. scope_cancelled (mgr s) x = (x \<in> set []))"
    by (simp add: handler_inv_def)
  then show ?thesis by blast
next
  case (CancelNext ts)
  with h obtain pre where pre: "iter_dag (snapshot s) = pre @ ts"
    "\<forall>x \<in> set pre. is_done (mgr s) x"
    "\<forall>x. scope_cancelled (mgr s) x = (x \<in> set pre)"
    by (auto simp: handler_inv_def)
  from pre(2) have "\<forall>x \<in> set (butlast pre). is_done (mgr s) x"
    by (auto dest: in_set_butlastD)
  with pre(1,3) show ?thesis by blast
next
  case (AwaitDone t ts)
  with h obtain pre where pre: "iter_dag (snapshot s) = pre @ t # ts"
    "\<forall>x \<in> set pre. is_done (mgr s) x"
    "\<forall>x. scope_cancelled (mgr s) x = (x \<in> set pre \<or> x = t)"
    by (auto simp: handler_inv_def)
  then have "iter_dag (snapshot s) = (pre @ [t]) @ ts
      \<and> (\<forall>x \<in> set (butlast (pre @ [t])). is_done (mgr s) x)
      \<and> (\<forall>x. scope_cancelled (mgr s) x = (x \<in> set (pre @ [t])))"
    by auto
  then show ?thesis by blast
next
  case HandlerExited
  with h show ?thesis by (simp add: handler_inv_def)
qed

lemma children_done_before_parent_cancelled:
  assumes i: "sys_inv s" and e: "(p, c) \<in> edges (snapshot s)"
    and sc: "scope_cancelled (mgr s) p"
  shows "is_done (mgr s) c"
proof -
  from sys_invD(2) [OF i] have wo: "wf_order (snapshot s)" by (rule wf_forestD(1))
  from e have ch: "c \<in> set (children (snapshot s) p)" by (simp add: edge_child [OF wo])
  from handler_inv_prefix [OF sys_invD(4) [OF i]] obtain pre post where
    pre: "iter_dag (snapshot s) = pre @ post" "\<forall>x \<in> set (butlast pre). is_done (mgr s) x"
      "\<forall>x. scope_cancelled (mgr s) x = (x \<in> set pre)"
    by blast
  from sc pre(3) have "p \<in> set pre" by simp
  then obtain xs ys where xs: "pre = xs @ p # ys" by (auto dest: split_list)
  with pre(1) have "iter_dag (snapshot s) = xs @ p # (ys @ post)" by simp
  from iter_dag_child_first [OF wo this ch] have "c \<in> set xs" .
  moreover from xs have "butlast pre = xs @ butlast (p # ys)" by (simp add: butlast_append)
  ultimately have "c \<in> set (butlast pre)" by simp
  with pre(2) show ?thesis by blast
qed

lemma handler_position:
  assumes i: "sys_inv s"
  shows "handler s = CancelNext ts \<Longrightarrow>
      \<exists>pre. iter_dag (snapshot s) = pre @ ts
        \<and> (\<forall>x \<in> set pre. scope_cancelled (mgr s) x \<and> is_done (mgr s) x)
        \<and> (\<forall>x \<in> set ts. \<not> scope_cancelled (mgr s) x)"
    and "handler s = AwaitDone t ts \<Longrightarrow>
      \<exists>pre. iter_dag (snapshot s) = pre @ t # ts
        \<and> (\<forall>x \<in> set pre. scope_cancelled (mgr s) x \<and> is_done (mgr s) x)
        \<and> scope_cancelled (mgr s) t
        \<and> (\<forall>x \<in> set ts. \<not> scope_cancelled (mgr s) x)"
proof -
  from distinct_iter_dag [OF sys_invD(2) [OF i]] have d: "distinct (iter_dag (snapshot s))" .
  {
    assume "handler s = CancelNext ts"
    with sys_invD(4) [OF i] obtain pre where pre: "iter_dag (snapshot s) = pre @ ts"
      "\<forall>x \<in> set pre. is_done (mgr s) x"
      "\<forall>x. scope_cancelled (mgr s) x = (x \<in> set pre)"
      by (auto simp: handler_inv_def)
    from d pre(1) have "set pre \<inter> set ts = {}" by simp
    with pre have "iter_dag (snapshot s) = pre @ ts
        \<and> (\<forall>x \<in> set pre. scope_cancelled (mgr s) x \<and> is_done (mgr s) x)
        \<and> (\<forall>x \<in> set ts. \<not> scope_cancelled (mgr s) x)"
      by auto
    then show "\<exists>pre. iter_dag (snapshot s) = pre @ ts
        \<and> (\<forall>x \<in> set pre. scope_cancelled (mgr s) x \<and> is_done (mgr s) x)
        \<and> (\<forall>x \<in> set ts. \<not> scope_cancelled (mgr s) x)" ..
  }
  {
    assume "handler s = AwaitDone t ts"
    with sys_invD(4) [OF i] obtain pre where pre: "iter_dag (snapshot s) = pre @ t # ts"
      "\<forall>x \<in> set pre. is_done (mgr s) x"
      "\<forall>x. scope_cancelled (mgr s) x = (x \<in> set pre \<or> x = t)"
      by (auto simp: handler_inv_def)
    from d pre(1) have "set pre \<inter> set ts = {}" "t \<notin> set ts" by simp_all
    with pre have "iter_dag (snapshot s) = pre @ t # ts
        \<and> (\<forall>x \<in> set pre. scope_cancelled (mgr s) x \<and> is_done (mgr s) x)
        \<and> scope_cancelled (mgr s) t
        \<and> (\<forall>x \<in> set ts. \<not> scope_cancelled (mgr s) x)"
      by auto
    then show "\<exists>pre. iter_dag (snapshot s) = pre @ t # ts
        \<and> (\<forall>x \<in> set pre. scope_cancelled (mgr s) x \<and> is_done (mgr s) x)
        \<and> scope_cancelled (mgr s) t
        \<and> (\<forall>x \<in> set ts. \<not> scope_cancelled (mgr s) x)" ..
  }
qed

lemma frozen_edges:
  assumes i: "sys_inv s" and ne: "snapshot s \<noteq> []"
  shows "edges (service_task_dag (mgr s)) = edges (snapshot s)"
proof -
  have "((p, c) \<in> edges (service_task_dag (mgr s))) = ((p, c) \<in> edges (snapshot s))" for p c
    using sys_invD(9) [OF i ne, of p]
    by (simp add: edges_children [OF wf_dag_keys(3) [OF sys_invD(1) [OF i]]]
        edge_child [OF wf_forestD(1) [OF sys_invD(2) [OF i]]])
  then show ?thesis by auto
qed

text \<open>
  C1, as the code has it. In every reachable state, with the handler's copy of the DAG:
  for every edge \<open>(p, c)\<close> of the copy, if the handler has cancelled the scope of \<open>p\<close>
  then the \<open>done\<close> event of \<open>c\<close> is set (a child has ended before the handler turns
  to its parent; nothing keeps a parent from ending by itself before its child). The
  iteration order has every node of the copy, once, each child before its parent. The
  handler's position splits the order: the nodes before it have their scope cancelled and
  their \<open>done\<close> event set, the node it waits for has its scope cancelled, the nodes
  after it are untouched; it leaves a node only when that node's \<open>done\<close> event is set.
  Once a non-empty copy is taken, the DAG has the edges of the copy and no others.
\<close>

theorem cancellation_order:
  assumes "exec (init_sys svc) evs = Some s"
  shows "(\<forall>p c. (p, c) \<in> edges (snapshot s) \<and> scope_cancelled (mgr s) p \<longrightarrow> is_done (mgr s) c)
    \<and> set (iter_dag (snapshot s)) = fst ` set (snapshot s)
    \<and> distinct (iter_dag (snapshot s))
    \<and> (\<forall>p c xs ys. (p, c) \<in> edges (snapshot s) \<and> iter_dag (snapshot s) = xs @ p # ys \<longrightarrow>
          c \<in> set xs)
    \<and> (\<forall>ts. handler s = CancelNext ts \<longrightarrow>
          (\<exists>pre. iter_dag (snapshot s) = pre @ ts
             \<and> (\<forall>x \<in> set pre. scope_cancelled (mgr s) x \<and> is_done (mgr s) x)
             \<and> (\<forall>x \<in> set ts. \<not> scope_cancelled (mgr s) x)))
    \<and> (\<forall>t ts. handler s = AwaitDone t ts \<longrightarrow>
          (\<exists>pre. iter_dag (snapshot s) = pre @ t # ts
             \<and> (\<forall>x \<in> set pre. scope_cancelled (mgr s) x \<and> is_done (mgr s) x)
             \<and> scope_cancelled (mgr s) t
             \<and> (\<forall>x \<in> set ts. \<not> scope_cancelled (mgr s) x)))
    \<and> (\<forall>t ts s'. handler s = AwaitDone t ts \<and> fire s HandlerStep = Some s' \<longrightarrow>
          is_done (mgr s) t \<and> handler s' = CancelNext ts)
    \<and> (snapshot s \<noteq> [] \<longrightarrow> edges (service_task_dag (mgr s)) = edges (snapshot s))"
proof -
  from reachable_sys_inv [OF assms] have i: "sys_inv s" .
  from sys_invD(2) [OF i] have wo: "wf_order (snapshot s)" by (rule wf_forestD(1))
  show ?thesis
  proof (intro conjI allI impI)
    show "is_done (mgr s) c" if "(p, c) \<in> edges (snapshot s) \<and> scope_cancelled (mgr s) p" for p c
      using that children_done_before_parent_cancelled [OF i, of p c] by simp
    show "set (iter_dag (snapshot s)) = fst ` set (snapshot s)"
      by (rule iter_dag_nodes [OF wo])
    show "distinct (iter_dag (snapshot s))"
      by (rule distinct_iter_dag [OF sys_invD(2) [OF i]])
    show "c \<in> set xs"
      if "(p, c) \<in> edges (snapshot s) \<and> iter_dag (snapshot s) = xs @ p # ys" for p c xs ys
      using that iter_dag_child_first [OF wo, of xs p ys c] by (simp add: edge_child [OF wo])
    show "\<exists>pre. iter_dag (snapshot s) = pre @ ts
             \<and> (\<forall>x \<in> set pre. scope_cancelled (mgr s) x \<and> is_done (mgr s) x)
             \<and> (\<forall>x \<in> set ts. \<not> scope_cancelled (mgr s) x)"
      if "handler s = CancelNext ts" for ts
      using that by (rule handler_position(1) [OF i])
    show "\<exists>pre. iter_dag (snapshot s) = pre @ t # ts
             \<and> (\<forall>x \<in> set pre. scope_cancelled (mgr s) x \<and> is_done (mgr s) x)
             \<and> scope_cancelled (mgr s) t
             \<and> (\<forall>x \<in> set ts. \<not> scope_cancelled (mgr s) x)"
      if "handler s = AwaitDone t ts" for t ts
      using that by (rule handler_position(2) [OF i])
    show "is_done (mgr s) t" "handler s' = CancelNext ts"
      if "handler s = AwaitDone t ts \<and> fire s HandlerStep = Some s'" for t ts s'
    proof -
      from that have "handle_cancelled_step (mgr s) (AwaitDone t ts) \<noteq> None"
        by (auto split: if_splits option.splits)
      then show d: "is_done (mgr s) t" by (simp split: if_splits)
      with that show "handler s' = CancelNext ts" by (auto split: if_splits)
    qed
    show "edges (service_task_dag (mgr s)) = edges (snapshot s)" if "snapshot s \<noteq> []"
      using that by (rule frozen_edges [OF i])
  qed
qed


lemma exec_mid_cancellation:
  "exec (init_sys 0) mid_cancellation =
     Some \<lparr>mgr = \<lparr>service = 0, started = True, cancelled = True, stopping = False,
              finished = False, run_lock = True, errors = [],
              service_task_dag = [(0, [1]), (1, [2]), (2, [])],
              tasks = [\<lparr>name = ''run'', daemon = False, done_set = False,
                        cancel_scope = False, parent = None, trio_task = Some 1\<rparr>,
                       \<lparr>name = ''A'', daemon = False, done_set = False,
                        cancel_scope = True, parent = Some 0, trio_task = Some 2\<rparr>,
                       \<lparr>name = ''B'', daemon = False, done_set = True,
                        cancel_scope = True, parent = Some 1, trio_task = Some 3\<rparr>],
              system_nursery = [HandleCancelled],
              task_nursery = [HandleRun, RunAndManageTask (UserFn 0) False ''A'' 1,
                              RunAndManageTask (UserFn 1) False ''B'' 2],
              system_nursery_cancelled = False, task_nursery_cancelled = False\<rparr>,
           handler = AwaitDone 1 [0], snapshot = [(0, [1]), (1, [2]), (2, [])],
           run_node = Some 0\<rparr>"
  by (simp add: mid_cancellation_def nested_cancellation_def eval_defs)

lemma exec_parent_ends_first:
  "exec (init_sys 0) parent_ends_first =
     Some \<lparr>mgr = \<lparr>service = 0, started = True, cancelled = True, stopping = False,
              finished = False, run_lock = True, errors = [],
              service_task_dag = [(0, [1]), (1, [])],
              tasks = [\<lparr>name = ''run'', daemon = False, done_set = True,
                        cancel_scope = False, parent = None, trio_task = Some 1\<rparr>,
                       \<lparr>name = ''child'', daemon = False, done_set = False,
                        cancel_scope = True, parent = Some 0, trio_task = Some 2\<rparr>],
              system_nursery = [HandleCancelled],
              task_nursery = [HandleRun, RunAndManageTask (UserFn 0) False ''child'' 1],
              system_nursery_cancelled = False, task_nursery_cancelled = False\<rparr>,
           handler = AwaitDone 1 [0], snapshot = [(0, [1]), (1, [])],
           run_node = Some 0\<rparr>"
  by (simp add: parent_ends_first_def eval_defs)

text \<open>
  The service body and the task it started both run when the handler takes its copy and
  begins to iterate; the handler has cancelled the child and waits for it; the service
  body returns. Its \<open>done\<close> event is set while the child's is not, and the edge
  between them is in the DAG and in the handler's copy.
\<close>

theorem parent_done_before_child:
  "exec (init_sys 0) parent_ends_first \<noteq> None
   \<and> handler (the (exec (init_sys 0) parent_ends_first)) = AwaitDone 1 [0]
   \<and> (0, 1) \<in> edges (snapshot (the (exec (init_sys 0) parent_ends_first)))
   \<and> (0, 1) \<in> edges (service_task_dag (mgr (the (exec (init_sys 0) parent_ends_first))))
   \<and> is_done (mgr (the (exec (init_sys 0) parent_ends_first))) 0
   \<and> \<not> is_done (mgr (the (exec (init_sys 0) parent_ends_first))) 1"
  by (simp add: exec_parent_ends_first edges_def is_done_def)

lemma exec_awaited_task_ended:
  "exec (init_sys 0) awaited_task_ended =
     Some \<lparr>mgr = \<lparr>service = 0, started = True, cancelled = True, stopping = False,
              finished = False, run_lock = True, errors = [],
              service_task_dag = [(0, [1]), (1, [2]), (2, [])],
              tasks = [\<lparr>name = ''run'', daemon = False, done_set = False,
                        cancel_scope = False, parent = None, trio_task = Some 1\<rparr>,
                       \<lparr>name = ''A'', daemon = False, done_set = True,
                        cancel_scope = True, parent = Some 0, trio_task = Some 2\<rparr>,
                       \<lparr>name = ''B'', daemon = False, done_set = True,
                        cancel_scope = True, parent = Some 1, trio_task = Some 3\<rparr>],
              system_nursery = [HandleCancelled],
              task_nursery = [HandleRun, RunAndManageTask (UserFn 0) False ''A'' 1,
                              RunAndManageTask (UserFn 1) False ''B'' 2],
              system_nursery_cancelled = False, task_nursery_cancelled = False\<rparr>,
           handler = AwaitDone 1 [0], snapshot = [(0, [1]), (1, [2]), (2, [])],
           run_node = Some 0\<rparr>"
  by (simp add: awaited_task_ended_def nested_cancellation_def eval_defs)

theorem cancellation_order_witness:
  "exec (init_sys 0) mid_cancellation \<noteq> None
   \<and> handler (the (exec (init_sys 0) mid_cancellation)) = AwaitDone 1 [0]
   \<and> iter_dag (snapshot (the (exec (init_sys 0) mid_cancellation))) = [2, 1, 0]
   \<and> snapshot (the (exec (init_sys 0) mid_cancellation)) \<noteq> []
   \<and> (1, 2) \<in> edges (snapshot (the (exec (init_sys 0) mid_cancellation)))
   \<and> scope_cancelled (mgr (the (exec (init_sys 0) mid_cancellation))) 1
   \<and> is_done (mgr (the (exec (init_sys 0) mid_cancellation))) 2
   \<and> \<not> scope_cancelled (mgr (the (exec (init_sys 0) mid_cancellation))) 0
   \<and> fire (the (exec (init_sys 0) mid_cancellation)) HandlerStep = None
   \<and> exec (init_sys 0) awaited_task_ended \<noteq> None
   \<and> handler (the (exec (init_sys 0) awaited_task_ended)) = AwaitDone 1 [0]
   \<and> is_done (mgr (the (exec (init_sys 0) awaited_task_ended))) 1
   \<and> fire (the (exec (init_sys 0) awaited_task_ended)) HandlerStep =
       Some ((the (exec (init_sys 0) awaited_task_ended))\<lparr>handler := CancelNext [0]\<rparr>)
   \<and> exec (init_sys 0) parent_returns_first \<noteq> None
   \<and> handler (the (exec (init_sys 0) parent_returns_first)) = CancelNext [1, 0]
   \<and> iter_dag (snapshot (the (exec (init_sys 0) parent_returns_first))) = [1, 0]
   \<and> \<not> scope_cancelled (mgr (the (exec (init_sys 0) parent_returns_first))) 1
   \<and> \<not> scope_cancelled (mgr (the (exec (init_sys 0) parent_returns_first))) 0"
proof -
  have a: "exec (init_sys 0) mid_cancellation = Some (the (exec (init_sys 0) mid_cancellation))"
    by (simp add: exec_mid_cancellation)
  have b: "exec (init_sys 0) awaited_task_ended =
      Some (the (exec (init_sys 0) awaited_task_ended))"
    by (simp add: exec_awaited_task_ended)
  have c: "exec (init_sys 0) parent_returns_first =
      Some (the (exec (init_sys 0) parent_returns_first))"
    by (simp add: exec_parent_returns_first)
  have 1: "exec (init_sys 0) mid_cancellation \<noteq> None
   \<and> handler (the (exec (init_sys 0) mid_cancellation)) = AwaitDone 1 [0]
   \<and> iter_dag (snapshot (the (exec (init_sys 0) mid_cancellation))) = [2, 1, 0]
   \<and> snapshot (the (exec (init_sys 0) mid_cancellation)) \<noteq> []
   \<and> (1, 2) \<in> edges (snapshot (the (exec (init_sys 0) mid_cancellation)))
   \<and> scope_cancelled (mgr (the (exec (init_sys 0) mid_cancellation))) 1
   \<and> is_done (mgr (the (exec (init_sys 0) mid_cancellation))) 2
   \<and> \<not> scope_cancelled (mgr (the (exec (init_sys 0) mid_cancellation))) 0
   \<and> fire (the (exec (init_sys 0) mid_cancellation)) HandlerStep = None"
    using cancellation_order [OF a]
    by (simp add: exec_mid_cancellation edges_def is_done_def scope_cancelled_def iter_dag_def
        roots_def children_def)
  have 2: "exec (init_sys 0) awaited_task_ended \<noteq> None
   \<and> handler (the (exec (init_sys 0) awaited_task_ended)) = AwaitDone 1 [0]
   \<and> is_done (mgr (the (exec (init_sys 0) awaited_task_ended))) 1
   \<and> fire (the (exec (init_sys 0) awaited_task_ended)) HandlerStep =
       Some ((the (exec (init_sys 0) awaited_task_ended))\<lparr>handler := CancelNext [0]\<rparr>)"
    using cancellation_order [OF b]
    by (simp add: exec_awaited_task_ended is_done_def)
  have 3: "exec (init_sys 0) parent_returns_first \<noteq> None
   \<and> handler (the (exec (init_sys 0) parent_returns_first)) = CancelNext [1, 0]
   \<and> iter_dag (snapshot (the (exec (init_sys 0) parent_returns_first))) = [1, 0]
   \<and> \<not> scope_cancelled (mgr (the (exec (init_sys 0) parent_returns_first))) 1
   \<and> \<not> scope_cancelled (mgr (the (exec (init_sys 0) parent_returns_first))) 0"
    using cancellation_order [OF c]
    by (simp add: exec_parent_returns_first scope_cancelled_def iter_dag_def
        roots_def children_def)
  from 1 2 3 show ?thesis by (elim conjE) (intro conjI)
qed

end
